theory Spec2Isabelle
  imports Main "HOL-Library.Sublist" "HOL-Library.AList"
begin

section \<open>Text, word characters and the whole-word match rule\<close>

text \<open>
  A Python \<open>str\<close> is modelled as a \<open>string\<close>: a list of characters, each a code point
  below 256. A file's content is the text that \<open>read()\<close> returns and that \<open>write()\<close>
  accepts (decoded, line ends already translated to the newline character).
\<close>

definition newline :: char where
  "newline = CHR 0x0A"

definition backslash :: char where
  "backslash = CHR 0x5C"

text \<open>
  The class \<open>\w\<close> of Python's \<open>re\<close> on \<open>str\<close> patterns: underscore and every character
  that is alphanumeric (\<open>str.isalnum\<close>). Below 128 that is \<open>[A-Za-z0-9_]\<close>; between 128
  and 255 it is the Latin-1 letters, the superscript digits and the vulgar fractions.
\<close>

definition is_word :: "char \<Rightarrow> bool" where
  "is_word c =
     (let n = (of_char c :: nat) in
        (48 \<le> n \<and> n \<le> 57) \<or> (65 \<le> n \<and> n \<le> 90) \<or> n = 95 \<or> (97 \<le> n \<and> n \<le> 122) \<or>
        n = 170 \<or> n = 178 \<or> n = 179 \<or> n = 181 \<or> n = 185 \<or> n = 186 \<or>
        (188 \<le> n \<and> n \<le> 190) \<or> (192 \<le> n \<and> n \<le> 214) \<or> (216 \<le> n \<and> n \<le> 246) \<or>
        248 \<le> n)"

text \<open>
  \<open>re.escape\<close>: a backslash goes before each of the characters
  \<^verbatim>\<open>()[]{}?*+-|^$\.&~#\<close>, space, tab, newline, carriage return, vertical tab and form feed.
\<close>

definition special_chars :: "char list" where
  "special_chars =
     ''()[]{}?*+-|^$'' @ [backslash] @ ''.&~# '' @
     [CHR 0x09, CHR 0x0A, CHR 0x0D, CHR 0x0B, CHR 0x0C]"

definition re_escape :: "string \<Rightarrow> string" where
  "re_escape s = concat (map (\<lambda>c. if c \<in> set special_chars then [backslash, c] else [c]) s)"

text \<open>
  The compiled form of the patterns this program builds: a sequence of atoms, each matching
  one character. \<open>compile\<close> reads the fragment of the pattern language that such patterns
  use: \<^verbatim>\<open>\W\<close>, a backslash before a special character (that character, literally), and a
  character that is no metacharacter (itself). Any other pattern is \<open>None\<close>.
\<close>

datatype atom = NonWord | Literal char

definition meta_chars :: "char list" where
  "meta_chars = ''()[]{}?*+|^$.'' @ [backslash]"

fun compile :: "string \<Rightarrow> atom list option" where
  "compile [] = Some []"
| "compile [c] =
     (if c \<in> set meta_chars then None else Some [Literal c])"
| "compile (c # d # ds) =
     (if c = backslash then
        (if d = CHR ''W'' then map_option (Cons NonWord) (compile ds)
         else if d \<in> set special_chars then map_option (Cons (Literal d)) (compile ds)
         else None)
      else if c \<in> set meta_chars then None
      else map_option (Cons (Literal c)) (compile (d # ds)))"

fun atom_matches :: "atom \<Rightarrow> char \<Rightarrow> bool" where
  "atom_matches NonWord c = (\<not> is_word c)"
| "atom_matches (Literal l) c = (c = l)"

text \<open>\<open>match_here r s\<close>: the pattern matches a prefix of \<open>s\<close>.\<close>

fun match_here :: "atom list \<Rightarrow> string \<Rightarrow> bool" where
  "match_here [] s = True"
| "match_here (a # r) [] = False"
| "match_here (a # r) (c # cs) = (atom_matches a c \<and> match_here r cs)"

text \<open>\<open>Pattern.search\<close>: the pattern matches at some position of the string.\<close>

fun regex_search :: "atom list \<Rightarrow> string \<Rightarrow> bool" where
  "regex_search r [] = match_here r []"
| "regex_search r (c # cs) = (match_here r (c # cs) \<or> regex_search r cs)"

text \<open>The pattern string of line 141: \<^verbatim>\<open>f"\\W{re.escape(asset_name)}\\W"\<close>.\<close>

definition asset_pattern :: "string \<Rightarrow> string" where
  "asset_pattern asset_name =
     [backslash, CHR ''W''] @ re_escape asset_name @ [backslash, CHR ''W'']"

text \<open>\<open>file.readlines()\<close>: the lines of a text, each with its terminating newline.\<close>

fun readlines :: "string \<Rightarrow> string list" where
  "readlines [] = []"
| "readlines (c # cs) =
     (if c = newline then [c] # readlines cs
      else (case readlines cs of [] \<Rightarrow> [[c]] | l # ls \<Rightarrow> (c # l) # ls))"

text \<open>The loop over the lines of lines 146--153: true when some line matches.\<close>

fun line_loop :: "atom list \<Rightarrow> string list \<Rightarrow> bool" where
  "line_loop r [] = False"
| "line_loop r (l # ls) = (if regex_search r l then True else line_loop r ls)"


section \<open>Paths and reference names\<close>

text \<open>
  A \<open>pathlib.Path\<close> is the list of its components, relative to the working directory;
  the empty list is \<^verbatim>\<open>Path('.')\<close>.
\<close>

type_synonym path = "string list"

definition path_name :: "path \<Rightarrow> string" where
  "path_name p = (if p = [] then [] else last p)"

definition path_parent :: "path \<Rightarrow> path" where
  "path_parent p = butlast p"

text \<open>\<open>p / s\<close>: joining an empty component gives \<open>p\<close> back.\<close>

definition joinpath :: "path \<Rightarrow> string \<Rightarrow> path" where
  "joinpath p s = (if s = [] then p else p @ [s])"

fun join :: "string \<Rightarrow> string list \<Rightarrow> string" where
  "join sep [] = []"
| "join sep [x] = x"
| "join sep (x # y # ys) = x @ sep @ join sep (y # ys)"

definition str_path :: "path \<Rightarrow> string" where
  "str_path p = (if p = [] then ''.'' else join ''/'' p)"

text \<open>\<open>str.rfind\<close> of one character: the last index where it occurs.\<close>

fun rfind :: "char \<Rightarrow> string \<Rightarrow> nat option" where
  "rfind c [] = None"
| "rfind c (x # xs) =
     (case rfind c xs of
        Some i \<Rightarrow> Some (Suc i)
      | None \<Rightarrow> if x = c then Some 0 else None)"

text \<open>
  \<open>PurePath.suffix\<close> and \<open>PurePath.stem\<close>: with \<open>i = name.rfind('.')\<close>, the name is cut
  at \<open>i\<close> when \<open>0 < i < len(name) - 1\<close>.
\<close>

definition path_suffix :: "path \<Rightarrow> string" where
  "path_suffix p =
     (let name = path_name p in
      case rfind CHR ''.'' name of
        None \<Rightarrow> []
      | Some i \<Rightarrow> if 0 < i \<and> i + 1 < length name then drop i name else [])"

definition path_stem :: "path \<Rightarrow> string" where
  "path_stem p =
     (let name = path_name p in
      case rfind CHR ''.'' name of
        None \<Rightarrow> name
      | Some i \<Rightarrow> if 0 < i \<and> i + 1 < length name then take i name else name)"

datatype error =
    FileNotFoundError string
  | ValueError string
  | BadZipFile
  | RegexError

text \<open>\<open>PurePath.with_stem\<close>: \<open>with_name(stem + self.suffix)\<close>, which refuses a path with an
  empty name.\<close>

definition with_stem :: "path \<Rightarrow> string \<Rightarrow> error + path" where
  "with_stem p stem =
     (if path_name p = [] then Inl (ValueError (str_path p))
      else Inr (butlast p @ [stem @ path_suffix p]))"

text \<open>
  The reference name of an asset, the expression
  \<^verbatim>\<open>asset.stem if asset.suffix == '.webm' else asset.name\<close>
  of lines 140, 178 and 179.
\<close>

definition asset_name :: "path \<Rightarrow> string" where
  "asset_name asset = (if path_suffix asset = ''.webm'' then path_stem asset else path_name asset)"

definition ASSETS_PATTERNS :: "string list" where
  "ASSETS_PATTERNS = [''*.css'', ''*.js'', ''*.json'', ''*.png'', ''*.ttf'', ''*.wasm'', ''*.webm'']"

section \<open>String replacement\<close>

text \<open>
  \<open>str.replace(old, new)\<close>: the occurrences of \<open>old\<close> are taken from the left, without
  overlap. With an empty \<open>old\<close>, \<open>new\<close> goes before every character and at the end.
\<close>

function py_replace :: "string \<Rightarrow> string \<Rightarrow> string \<Rightarrow> string" where
  "py_replace old new [] = (if old = [] then new else [])"
| "py_replace old new (c # cs) =
     (if old = [] then new @ c # py_replace old new cs
      else if prefix old (c # cs) then new @ py_replace old new (drop (length old) (c # cs))
      else c # py_replace old new cs)"
  by pat_completeness auto
termination
  by (relation "measure (\<lambda>(old, new, s). length s)") auto

text \<open>
  What the specification says of the replacement, as a relation between the text before and
  after: every occurrence of \<open>old\<close>, found from the left, has become \<open>new\<close>, and the text
  between the occurrences is as it was.
\<close>

inductive replaced_all :: "string \<Rightarrow> string \<Rightarrow> string \<Rightarrow> string \<Rightarrow> bool" where
  none: "\<not> sublist old s \<Longrightarrow> replaced_all old new s s"
| step: "\<not> sublist old (a @ butlast old) \<Longrightarrow> replaced_all old new b t \<Longrightarrow>
         replaced_all old new (a @ old @ b) (a @ new @ t)"

text \<open>
  An occurrence of \<open>name\<close> in a line with a non-word character of the line right before it
  and right after it.
\<close>

definition whole_word :: "string \<Rightarrow> string \<Rightarrow> bool" where
  "whole_word name line \<longleftrightarrow>
     (\<exists>pre b a post. line = pre @ b # name @ a # post \<and> \<not> is_word b \<and> \<not> is_word a)"

section \<open>The file system and the random source\<close>

text \<open>
  The state of a run: the regular files with their text (one entry per path, in the order a
  directory listing gives them; a directory exists when a file lies below it), the events so
  far, and the number of random draws taken. Directories whose own name matches a pattern
  are left out of the model. Calls of the logger change none of this and are left out.
  The events record what happens to the files, in order: \<open>Yielded p\<close> when the scanner hands
  the source file \<open>p\<close> to its consumer, \<open>Wrote p\<close> when the file \<open>p\<close> is written, and
  \<open>Renamed p q\<close> when the file \<open>p\<close> is renamed to \<open>q\<close>.
\<close>

datatype event = Yielded path | Wrote path | Renamed path path

record state =
  files :: "(path \<times> string) list"
  trace :: "event list"
  drawn :: nat

definition exists :: "state \<Rightarrow> path \<Rightarrow> bool" where
  "exists st p \<longleftrightarrow>
     p = [] \<or> p \<in> set (map fst (files st)) \<or> (\<exists>q \<in> set (map fst (files st)). strict_prefix p q)"

definition open_read :: "state \<Rightarrow> path \<Rightarrow> error + string" where
  "open_read st p =
     (case map_of (files st) p of
        None \<Rightarrow> Inl (FileNotFoundError (str_path p))
      | Some content \<Rightarrow> Inr content)"

definition write_text :: "path \<Rightarrow> string \<Rightarrow> state \<Rightarrow> state" where
  "write_text p content st =
     st\<lparr>files := AList.update p content (files st), trace := trace st @ [Wrote p]\<rparr>"

text \<open>\<open>Path.rename\<close> on a regular file (POSIX): a file already at the target is replaced.\<close>

definition rename :: "path \<Rightarrow> path \<Rightarrow> state \<Rightarrow> error \<times> state + state" where
  "rename old new st =
     (case map_of (files st) old of
        None \<Rightarrow> Inl (FileNotFoundError (str_path old), st)
      | Some content \<Rightarrow>
          Inr (st\<lparr>files := AList.update new content (AList.delete old (files st)),
                  trace := trace st @ [Renamed old new]\<rparr>))"

text \<open>
  A pattern \<^verbatim>\<open>*rest\<close> with no other wildcard matches the names that end with \<open>rest\<close>;
  \<open>rglob\<close> gives the files below the folder whose name matches.
\<close>

definition pattern_matches :: "string \<Rightarrow> string \<Rightarrow> bool" where
  "pattern_matches pattern name =
     (case pattern of
        [] \<Rightarrow> name = []
      | c # rest \<Rightarrow> if c = CHR ''*'' then suffix rest name else name = pattern)"

definition rglob :: "state \<Rightarrow> path \<Rightarrow> string \<Rightarrow> path list" where
  "rglob st folder pattern =
     filter (\<lambda>p. strict_prefix folder p \<and> pattern_matches pattern (path_name p))
       (map fst (files st))"

definition ascii_letters :: string where
  "ascii_letters = ''abcdefghijklmnopqrstuvwxyzABCDEFGHIJKLMNOPQRSTUVWXYZ''"

definition digits :: string where
  "digits = ''0123456789''"

text \<open>
  \<open>random.choices(population, k=k)\<close>: \<open>k\<close> draws with replacement. The random source is a
  sequence \<open>rnd\<close> of numbers; a draw takes the next one, reduced to an index of the
  population.
\<close>

definition choices :: "(nat \<Rightarrow> nat) \<Rightarrow> 'a list \<Rightarrow> nat \<Rightarrow> state \<Rightarrow> 'a list \<times> state" where
  "choices rnd population k st =
     (map (\<lambda>i. population ! (rnd (drawn st + i) mod length population)) [0..<k],
      st\<lparr>drawn := drawn st + k\<rparr>)"

definition generate_random_string :: "(nat \<Rightarrow> nat) \<Rightarrow> nat \<Rightarrow> state \<Rightarrow> string \<times> state" where
  "generate_random_string rnd len st = choices rnd (ascii_letters @ digits) len st"

definition rename_asset :: "(nat \<Rightarrow> nat) \<Rightarrow> path \<Rightarrow> state \<Rightarrow> error \<times> state + path \<times> state" where
  "rename_asset rnd asset st =
     (let (suffix, st') = generate_random_string rnd 8 st in
      case with_stem asset (path_stem asset @ ''_'' @ suffix) of
        Inl e \<Rightarrow> Inl (e, st')
      | Inr new_asset \<Rightarrow> Inr (new_asset, st'))"

section \<open>Scanning, rewriting and renaming\<close>

definition quote :: char where
  "quote = CHR 0x27"

definition asset_not_found :: "path \<Rightarrow> string" where
  "asset_not_found asset =
     ''The asset '' @ [quote] @ str_path asset @ [quote] @ '' was not found in the source code.''"

definition archive_not_found :: "path \<Rightarrow> string" where
  "archive_not_found archive_path =
     ''The specified file '' @ [quote] @ str_path archive_path @ [quote] @ '' does not exist.''"

text \<open>
  \<open>search_for_asset_uses\<close> is a generator: it runs only while its consumer asks for the next
  path, and the consumer's loop body runs at every \<open>yield\<close>, before the scan goes on. The
  model takes that loop body as the argument \<open>body\<close>. \<open>scan_loop\<close> is the loop over the
  source files (lines 139--153) with the flag \<open>found\<close>.
\<close>

fun scan_loop ::
  "(path \<Rightarrow> state \<Rightarrow> error \<times> state + state) \<Rightarrow> path \<Rightarrow> path list \<Rightarrow> bool \<Rightarrow> state \<Rightarrow>
   error \<times> state + bool \<times> state" where
  "scan_loop body asset [] found st = Inr (found, st)"
| "scan_loop body asset (source_file # rest) found st =
     (case compile (asset_pattern (asset_name asset)) of
        None \<Rightarrow> Inl (RegexError, st)
      | Some asset_regex \<Rightarrow>
          (case open_read st source_file of
             Inl e \<Rightarrow> Inl (e, st)
           | Inr content \<Rightarrow>
               if line_loop asset_regex (readlines content) then
                 (case body source_file (st\<lparr>trace := trace st @ [Yielded source_file]\<rparr>) of
                    Inl e \<Rightarrow> Inl e
                  | Inr st' \<Rightarrow> scan_loop body asset rest True st')
               else scan_loop body asset rest found st))"

definition source_files :: "state \<Rightarrow> path \<Rightarrow> path list" where
  "source_files st folder_path =
     rglob st folder_path ''*.html'' @ rglob st folder_path ''*.js'' @
     rglob st folder_path ''*.json''"

definition search_for_asset_uses ::
  "(path \<Rightarrow> state \<Rightarrow> error \<times> state + state) \<Rightarrow> path \<Rightarrow> path \<Rightarrow> state \<Rightarrow>
   error \<times> state + state" where
  "search_for_asset_uses body folder_path asset st =
     (case scan_loop body asset (source_files st folder_path) False st of
        Inl e \<Rightarrow> Inl e
      | Inr (found, st') \<Rightarrow>
          if \<not> found then Inl (FileNotFoundError (asset_not_found asset), st') else Inr st')"

definition replace_asset_uses :: "path \<Rightarrow> path \<Rightarrow> path \<Rightarrow> state \<Rightarrow> error \<times> state + state" where
  "replace_asset_uses source_file old_asset new_asset st =
     (case open_read st source_file of
        Inl e \<Rightarrow> Inl (e, st)
      | Inr content \<Rightarrow>
          Inr (write_text source_file
                 (py_replace (asset_name old_asset) (asset_name new_asset) content) st))"

text \<open>
  The body of the loop over the assets in \<open>main\<close> (lines 212--221). The generator made in
  line 214 starts to run only in the loop of line 217, after \<open>rename_asset\<close> of line 215.
\<close>

definition process_asset :: "(nat \<Rightarrow> nat) \<Rightarrow> path \<Rightarrow> path \<Rightarrow> state \<Rightarrow> error \<times> state + state" where
  "process_asset rnd extract_path asset st =
     (case rename_asset rnd asset st of
        Inl e \<Rightarrow> Inl e
      | Inr (new_asset, st1) \<Rightarrow>
          (case search_for_asset_uses (\<lambda>asset_use. replace_asset_uses asset_use asset new_asset)
                  extract_path asset st1 of
             Inl e \<Rightarrow> Inl e
           | Inr st2 \<Rightarrow> rename asset new_asset st2))"

fun assets_loop :: "(nat \<Rightarrow> nat) \<Rightarrow> path \<Rightarrow> path list \<Rightarrow> state \<Rightarrow> error \<times> state + state" where
  "assets_loop rnd extract_path [] st = Inr st"
| "assets_loop rnd extract_path (asset # assets) st =
     (case process_asset rnd extract_path asset st of
        Inl e \<Rightarrow> Inl e
      | Inr st' \<Rightarrow> assets_loop rnd extract_path assets st')"

text \<open>
  \<open>identify_assets\<close> is a generator too, consumed by the loop of \<open>main\<close>, so the body of that
  loop (\<open>process_asset\<close>) runs at each of its yields: \<open>assets_loop\<close> is the loop over the
  assets of one pattern, and the listing for a pattern is taken when the loop reaches that
  pattern, after the assets of the patterns before it have been processed.
\<close>

fun identify_assets :: "(nat \<Rightarrow> nat) \<Rightarrow> path \<Rightarrow> string list \<Rightarrow> state \<Rightarrow> error \<times> state + state" where
  "identify_assets rnd extract_path [] st = Inr st"
| "identify_assets rnd extract_path (pattern # patterns) st =
     (case assets_loop rnd extract_path (rglob st extract_path pattern) st of
        Inl e \<Rightarrow> Inl e
      | Inr st' \<Rightarrow> identify_assets rnd extract_path patterns st')"

section \<open>Expanding the archive\<close>

text \<open>
  \<open>ZipFile.extractall\<close> writes each member below the target; the members of an archive are
  given by \<open>unzip\<close> from the archive's content (\<open>None\<close> when it is no ZIP file), as paths
  relative to the target. Nothing is created for an archive without members.
\<close>

fun extractall :: "path \<Rightarrow> (path \<times> string) list \<Rightarrow> state \<Rightarrow> state" where
  "extractall target [] st = st"
| "extractall target ((rel, content) # members) st =
     extractall target members (write_text (target @ rel) content st)"

definition extract_zip ::
  "(string \<Rightarrow> (path \<times> string) list option) \<Rightarrow> path \<Rightarrow> state \<Rightarrow> error \<times> state + path \<times> state" where
  "extract_zip unzip archive_path st =
     (let extract_path = joinpath (path_parent archive_path) (path_stem archive_path) in
      if exists st extract_path then Inr (extract_path, st)
      else
        (case open_read st archive_path of
           Inl e \<Rightarrow> Inl (e, st)
         | Inr content \<Rightarrow>
             (case unzip content of
                None \<Rightarrow> Inl (BadZipFile, st)
              | Some members \<Rightarrow> Inr (extract_path, extractall extract_path members st))))"

definition main ::
  "(nat \<Rightarrow> nat) \<Rightarrow> (string \<Rightarrow> (path \<times> string) list option) \<Rightarrow> path \<Rightarrow> state \<Rightarrow>
   error \<times> state + state" where
  "main rnd unzip archive_path st =
     (if \<not> exists st archive_path then
        Inl (FileNotFoundError (archive_not_found archive_path), st)
      else
        (case extract_zip unzip archive_path st of
           Inl e \<Rightarrow> Inl e
         | Inr (extract_path, st') \<Rightarrow> identify_assets rnd extract_path ASSETS_PATTERNS st'))"

section \<open>The logger\<close>

text \<open>
  The package \<open>construct_cache_fixer.logging\<close> (the directory, which the import of line 18
  finds before the module of the same name). A level is an \<open>int\<close> or a \<open>str\<close>;
  \<open>checkLevel\<close> is \<open>logging._checkLevel\<close> of the standard library with its table of level
  names.
\<close>

datatype level = IntLevel int | StrLevel string

definition NOTSET :: int where "NOTSET = 0"
definition DEBUG :: int where "DEBUG = 10"
definition INFO :: int where "INFO = 20"
definition WARNING :: int where "WARNING = 30"
definition ERROR :: int where "ERROR = 40"
definition CRITICAL :: int where "CRITICAL = 50"

definition nameToLevel :: "(string \<times> int) list" where
  "nameToLevel =
     [(''CRITICAL'', CRITICAL), (''FATAL'', CRITICAL), (''ERROR'', ERROR), (''WARN'', WARNING),
      (''WARNING'', WARNING), (''INFO'', INFO), (''DEBUG'', DEBUG), (''NOTSET'', NOTSET)]"

definition checkLevel :: "level \<Rightarrow> error + int" where
  "checkLevel lv =
     (case lv of
        IntLevel n \<Rightarrow> Inr n
      | StrLevel s \<Rightarrow>
          (case map_of nameToLevel s of
             None \<Rightarrow> Inl (ValueError (''Unknown level: '' @ [quote] @ s @ [quote]))
           | Some n \<Rightarrow> Inr n))"

text \<open>Python's \<open>not level\<close> on an optional level: \<open>None\<close>, \<open>0\<close> and the empty string.\<close>

fun falsy :: "level option \<Rightarrow> bool" where
  "falsy None = True"
| "falsy (Some (IntLevel n)) = (n = 0)"
| "falsy (Some (StrLevel s)) = (s = [])"

record logger =
  logger_name :: string
  logger_level :: int

definition ColoredLogger :: "string \<Rightarrow> level option \<Rightarrow> error + logger" where
  "ColoredLogger name lv =
     (let lv' = (case lv of None \<Rightarrow> IntLevel INFO
                 | Some l \<Rightarrow> if falsy lv then IntLevel INFO else l) in
      case checkLevel lv' of
        Inl e \<Rightarrow> Inl e
      | Inr n \<Rightarrow> Inr \<lparr>logger_name = name, logger_level = n\<rparr>)"

text \<open>
  \<^verbatim>\<open>os.environ.get("LOGGING_LEVEL", INFO)\<close>, read when the package is imported; the
  environment is the list of its variables with their values.
\<close>

definition default_level :: "(string \<times> string) list \<Rightarrow> level" where
  "default_level env =
     (case map_of env ''LOGGING_LEVEL'' of None \<Rightarrow> IntLevel INFO | Some s \<Rightarrow> StrLevel s)"

text \<open>\<open>caller\<close> is the name of the calling module, which \<open>getLogger\<close> takes from the stack.\<close>

definition getLogger ::
  "(string \<times> string) list \<Rightarrow> string \<Rightarrow> string option \<Rightarrow> level option \<Rightarrow> error + logger" where
  "getLogger env caller name lv =
     (let name' = (case name of None \<Rightarrow> caller | Some n \<Rightarrow> if n = [] then caller else n);
          lv' = (if falsy lv then Some (default_level env) else lv)
      in ColoredLogger name' lv')"

definition setLevel :: "level \<Rightarrow> logger \<Rightarrow> error + logger" where
  "setLevel lv lg =
     (case checkLevel lv of
        Inl e \<Rightarrow> Inl e
      | Inr n \<Rightarrow> Inr (lg\<lparr>logger_level := n\<rparr>))"

text \<open>Lines 21 and 22 of \<open>main.py\<close>: the logger of the core.\<close>

definition core_logger :: "(string \<times> string) list \<Rightarrow> error + logger" where
  "core_logger env =
     (case getLogger env ''__main__'' None None of
        Inl e \<Rightarrow> Inl e
      | Inr lg \<Rightarrow> setLevel (IntLevel INFO) lg)"

text \<open>\<open>Logger.isEnabledFor\<close>: a line of a severity is emitted when the severity reaches the
  logger's level.\<close>

definition isEnabledFor :: "logger \<Rightarrow> int \<Rightarrow> bool" where
  "isEnabledFor lg severity \<longleftrightarrow> logger_level lg \<le> severity"

section \<open>Notions used to state the properties\<close>

text \<open>Letter case: \<open>lower\<close> maps \<open>A\<close>--\<open>Z\<close> to \<open>a\<close>--\<open>z\<close>.\<close>

definition lower :: "char \<Rightarrow> char" where
  "lower c =
     (case map_of (zip ''ABCDEFGHIJKLMNOPQRSTUVWXYZ'' ''abcdefghijklmnopqrstuvwxyz'') c of
        None \<Rightarrow> c
      | Some l \<Rightarrow> l)"

definition same_ignoring_case :: "string \<Rightarrow> string \<Rightarrow> bool" where
  "same_ignoring_case v name \<longleftrightarrow> map lower v = map lower name"

text \<open>The text holds the name, if at all, only in another letter case.\<close>

definition only_in_other_case :: "string \<Rightarrow> string \<Rightarrow> bool" where
  "only_in_other_case name content \<longleftrightarrow>
     (\<forall>v. sublist v content \<and> same_ignoring_case v name \<longrightarrow> v \<noteq> name)"

text \<open>The text of a file holds the name as a whole word on one of its lines.\<close>

definition referenced_in :: "string \<Rightarrow> string \<Rightarrow> bool" where
  "referenced_in name content \<longleftrightarrow> (\<exists>line \<in> set (readlines content). whole_word name line)"

text \<open>The file at a path holds the name as a whole word on one of its lines.\<close>

definition uses_name :: "string \<Rightarrow> state \<Rightarrow> path \<Rightarrow> bool" where
  "uses_name name st p \<longleftrightarrow>
     (\<exists>content. map_of (files st) p = Some content \<and> referenced_in name content)"

text \<open>A small export, for the examples.\<close>

definition page :: state where
  "page =
     \<lparr>files = [([''game'', ''index.html''], ''src=(x.png) ax.pngb''), ([''game'', ''x.png''], ''PNG'')],
      trace = [], drawn = 0\<rparr>"

text \<open>
  An archive reader for the examples: the text \<^verbatim>\<open>PK-empty\<close> is an archive without
  members, \<^verbatim>\<open>PK-game\<close> one with a page and its image, any other text is no archive.
\<close>

definition unzip_example :: "string \<Rightarrow> (path \<times> string) list option" where
  "unzip_example content =
     (if content = ''PK-empty'' then Some []
      else if content = ''PK-game'' then
        Some [([''index.html''], ''src=(x.png)''), ([''x.png''], ''PNG'')]
      else None)"

definition download :: "string \<Rightarrow> state" where
  "download content = \<lparr>files = [([''game.zip''], content)], trace = [], drawn = 0\<rparr>"

definition orphan :: state where
  "orphan =
     \<lparr>files = [([''game'', ''index.html''], ''src=(y.png)''), ([''game'', ''x.png''], ''PNG'')],
      trace = [], drawn = 0\<rparr>"

definition site :: state where
  "site =
     \<lparr>files = [([''game'', ''a.html''], ''src=(x.png)''), ([''game'', ''x.png''], ''PNG'')],
      trace = [], drawn = 0\<rparr>"

section \<open>The match rule of the scanner\<close>

lemma meta_subset_special: "c \<in> set meta_chars \<Longrightarrow> c \<in> set special_chars"
  by (auto simp: meta_chars_def special_chars_def)

lemma W_not_special: "CHR ''W'' \<notin> set special_chars"
  by (simp add: special_chars_def backslash_def)

lemma backslash_special: "backslash \<in> set special_chars"
  by (simp add: special_chars_def)

lemma compile_plain:
  "c \<notin> set special_chars \<Longrightarrow> compile (c # xs) = map_option (Cons (Literal c)) (compile xs)"
  using meta_subset_special backslash_special by (cases xs) auto

lemma compile_escaped:
  "c \<in> set special_chars \<Longrightarrow>
   compile (backslash # c # xs) = map_option (Cons (Literal c)) (compile xs)"
  using W_not_special by auto

lemma compile_re_escape:
  "compile (re_escape s @ rest) = map_option (\<lambda>r. map Literal s @ r) (compile rest)"
proof (induction s)
  case Nil
  show ?case by (simp add: re_escape_def option.map_ident)
next
  case (Cons c s)
  have step: "re_escape (c # s) =
      (if c \<in> set special_chars then [backslash, c] else [c]) @ re_escape s"
    by (simp add: re_escape_def)
  show ?case
  proof (cases "c \<in> set special_chars")
    case True
    then show ?thesis
      using Cons.IH
      by (simp add: step compile_escaped option.map_comp comp_def del: compile.simps)
  next
    case False
    then show ?thesis
      using Cons.IH
      by (simp add: step compile_plain option.map_comp comp_def del: compile.simps)
  qed
qed

lemma compile_NonWord: "compile [backslash, CHR ''W''] = Some [NonWord]"
  by simp

lemma compile_asset_pattern:
  "compile (asset_pattern name) = Some (NonWord # map Literal name @ [NonWord])"
proof -
  have "compile (asset_pattern name) =
        map_option (Cons NonWord) (compile (re_escape name @ [backslash, CHR ''W'']))"
    by (simp add: asset_pattern_def)
  then show ?thesis
    by (simp add: compile_re_escape compile_NonWord del: compile.simps)
qed

lemma match_here_literals:
  "match_here (map Literal name @ r) s \<longleftrightarrow> (\<exists>t. s = name @ t \<and> match_here r t)"
proof (induction name arbitrary: s)
  case Nil
  show ?case by simp
next
  case (Cons c name)
  show ?case by (cases s) (auto simp: Cons.IH)
qed

lemma match_here_NonWord:
  "match_here [NonWord] s \<longleftrightarrow> (\<exists>a post. s = a # post \<and> \<not> is_word a)"
  by (cases s) auto

lemma regex_search_iff:
  "regex_search r s \<longleftrightarrow> (\<exists>pre post. s = pre @ post \<and> match_here r post)"
proof (induction s)
  case Nil
  show ?case by simp
next
  case (Cons c cs)
  show ?case
    by (auto simp: Cons.IH Cons_eq_append_conv append_eq_Cons_conv)
qed

lemma match_here_whole_word:
  "match_here (NonWord # map Literal name @ [NonWord]) s \<longleftrightarrow>
   (\<exists>b a post. s = b # name @ a # post \<and> \<not> is_word b \<and> \<not> is_word a)"
  by (cases s) (auto simp: match_here_literals match_here_NonWord)

lemma search_whole_word:
  "regex_search (NonWord # map Literal name @ [NonWord]) line \<longleftrightarrow> whole_word name line"
  unfolding regex_search_iff match_here_whole_word whole_word_def by blast

text \<open>
  Claim C1, as the code has it. The pattern built for an asset compiles, and it matches a line
  exactly when the line holds the reference name with a non-word character of that line
  right before it and right after it. So the name inside a longer identifier is never
  matched, the name between punctuation or before the newline that ends the line is, and
  the name that starts a line (or ends a line that has no newline) is not.
\<close>

theorem scanner_rule_whole_word:
  "\<exists>r. compile (asset_pattern (asset_name asset)) = Some r \<and>
       (\<forall>line. regex_search r line \<longleftrightarrow> whole_word (asset_name asset) line)"
  by (simp add: compile_asset_pattern search_whole_word)

text \<open>
  Claim C1 as stated fails at a line boundary: the line \<^verbatim>\<open>x.png\n\<close> begins with the
  reference name of the asset \<^verbatim>\<open>x.png\<close>, and the scanner's rule does not match it.
\<close>

theorem scanner_rule_line_start_counterexample:
  "asset_name [''x.png''] = ''x.png'' \<and>
   readlines (''x.png'' @ [newline]) = [''x.png'' @ [newline]] \<and>
   prefix ''x.png'' (''x.png'' @ [newline]) \<and>
   compile (asset_pattern ''x.png'') = Some (NonWord # map Literal ''x.png'' @ [NonWord]) \<and>
   \<not> line_loop (NonWord # map Literal ''x.png'' @ [NonWord]) (readlines (''x.png'' @ [newline]))"
  by (simp add: compile_asset_pattern asset_name_def path_suffix_def path_stem_def path_name_def
      newline_def is_word_def)

section \<open>The reference name\<close>

lemma rfind_absent: "c \<notin> set e \<Longrightarrow> rfind c e = None"
  by (induction e) auto

lemma rfind_last: "c \<notin> set e \<Longrightarrow> rfind c (s @ c # e) = Some (length s)"
  by (induction s) (auto simp: rfind_absent)

lemma suffix_of_name:
  assumes "CHR ''.'' \<notin> set e" "e \<noteq> []" "path_name p = s @ CHR ''.'' # e"
  shows "path_suffix p = (if s = [] then [] else CHR ''.'' # e)"
    and "path_stem p = (if s = [] then path_name p else s)"
  using assms by (auto simp: path_suffix_def path_stem_def rfind_last Let_def)

lemma asset_name_of_name:
  assumes "CHR ''.'' \<notin> set e" "e \<noteq> []" "path_name p = s @ CHR ''.'' # e"
  shows "asset_name p = (if e = ''webm'' then path_stem p else path_name p)"
  using assms suffix_of_name[OF assms] by (auto simp: asset_name_def)

lemma pattern_matches_star:
  "pattern_matches (CHR ''*'' # rest) name \<longleftrightarrow> (\<exists>s. name = s @ rest)"
  by (auto simp: pattern_matches_def suffix_def)

text \<open>
  Claim C3. The reference name, which the scanner (\<open>scan_loop\<close>) and the rewriter
  (\<open>replace_asset_uses\<close>) both take through \<open>asset_name\<close>, is the stem when the extension
  is \<^verbatim>\<open>.webm\<close> and the full file name otherwise; for a file found under a pattern of the
  allow-list it is the stem for \<^verbatim>\<open>*.webm\<close> and the full name for the six other patterns.
\<close>

theorem reference_name_rule:
  "(path_suffix asset = ''.webm'' \<longrightarrow> asset_name asset = path_stem asset) \<and>
   (path_suffix asset \<noteq> ''.webm'' \<longrightarrow> asset_name asset = path_name asset) \<and>
   (\<forall>pattern \<in> set ASSETS_PATTERNS. pattern_matches pattern (path_name asset) \<longrightarrow>
      asset_name asset = (if pattern = ''*.webm'' then path_stem asset else path_name asset))"
proof -
  have "asset_name asset = (if e = ''webm'' then path_stem asset else path_name asset)"
    if "pattern_matches (CHR ''*'' # CHR ''.'' # e) (path_name asset)"
      and "CHR ''.'' \<notin> set e" and "e \<noteq> []" for e
  proof -
    from that(1) obtain s where "path_name asset = s @ CHR ''.'' # e"
      unfolding pattern_matches_star by blast
    from asset_name_of_name[OF that(2,3) this] show ?thesis .
  qed
  note by_pattern = this
  show ?thesis
    using by_pattern[of "''css''"] by_pattern[of "''js''"] by_pattern[of "''json''"]
      by_pattern[of "''png''"] by_pattern[of "''ttf''"] by_pattern[of "''wasm''"]
      by_pattern[of "''webm''"]
    by (simp add: ASSETS_PATTERNS_def asset_name_def)
qed

theorem reference_name_rule_witness:
  "path_suffix [''media'', ''intro.webm''] = ''.webm'' \<and>
   asset_name [''media'', ''intro.webm''] = path_stem [''media'', ''intro.webm''] \<and>
   path_stem [''media'', ''intro.webm''] = ''intro'' \<and>
   path_suffix [''images'', ''shared.png''] \<noteq> ''.webm'' \<and>
   asset_name [''images'', ''shared.png''] = ''shared.png'' \<and>
   ''*.png'' \<in> set ASSETS_PATTERNS \<and>
   pattern_matches ''*.png'' (path_name [''images'', ''shared.png''])"
proof -
  have a: "path_suffix [''media'', ''intro.webm''] = ''.webm''"
    by (simp add: path_suffix_def path_name_def)
  have b: "path_stem [''media'', ''intro.webm''] = ''intro''"
    by (simp add: path_stem_def path_name_def)
  have c: "path_suffix [''images'', ''shared.png''] \<noteq> ''.webm''"
    by (simp add: path_suffix_def path_name_def)
  have d: "path_name [''images'', ''shared.png''] = ''shared.png''"
    by (simp add: path_name_def)
  have e: "''*.png'' \<in> set ASSETS_PATTERNS"
    by (simp add: ASSETS_PATTERNS_def)
  have f: "pattern_matches ''*.png'' (path_name [''images'', ''shared.png''])"
    by code_simp
  show ?thesis
    using reference_name_rule[of "[''media'', ''intro.webm'']"]
      reference_name_rule[of "[''images'', ''shared.png'']"] a b c d e f
    by simp
qed

section \<open>The replacement\<close>

lemma py_replace_absent: "\<not> sublist old s \<Longrightarrow> py_replace old new s = s"
proof (induction s)
  case Nil
  then show ?case by auto
next
  case (Cons c cs)
  from Cons.prems have "old \<noteq> []" by auto
  moreover from Cons.prems have "\<not> prefix old (c # cs)" "\<not> sublist old cs"
    by (auto simp: sublist_Cons_right)
  ultimately show ?case using Cons.IH by simp
qed

lemma prefix_in_front:
  assumes "a \<noteq> []" "prefix old (a @ old @ b)"
  shows "sublist old (a @ butlast old)"
proof (cases "old = []")
  case True
  then show ?thesis by simp
next
  case False
  have len: "length old \<le> length (a @ butlast old)"
    using assms(1) by (cases a) auto
  from assms(2) have "old = take (length old) (a @ old @ b)"
    by (metis append_eq_conv_conj prefix_def)
  also have "a @ old @ b = (a @ butlast old) @ (last old # b)"
    using False by simp
  also have "take (length old) \<dots> = take (length old) (a @ butlast old)"
    using len by simp
  finally have "prefix old (a @ butlast old)"
    by (metis take_is_prefix)
  then show ?thesis by (rule prefix_imp_sublist)
qed

lemma py_replace_first:
  assumes "old \<noteq> []" "\<not> sublist old (a @ butlast old)"
  shows "py_replace old new (a @ old @ b) = a @ new @ py_replace old new b"
  using assms(2)
proof (induction a)
  case Nil
  from assms(1) obtain c cs where "old @ b = c # cs" by (cases old) auto
  moreover have "prefix old (old @ b)" by simp
  ultimately show ?case using assms(1) by (metis append_Nil py_replace.simps(2) append_eq_conv_conj)
next
  case (Cons c a)
  have "\<not> prefix old ((c # a) @ old @ b)"
    using prefix_in_front[of "c # a" old b] Cons.prems by blast
  moreover have "\<not> sublist old (a @ butlast old)"
    using Cons.prems by (auto simp: sublist_Cons_right)
  ultimately show ?case using Cons.IH assms(1) by simp
qed

lemma no_sublist_butlast: "old \<noteq> [] \<Longrightarrow> \<not> sublist old (butlast old)"
proof
  assume "old \<noteq> []" "sublist old (butlast old)"
  then have "length old \<le> length (butlast old)" by (metis sublist_length_le)
  moreover have "length (butlast old) = length old - 1" by (rule length_butlast)
  moreover from \<open>old \<noteq> []\<close> have "0 < length old" by (rule iffD2[OF length_greater_0_conv])
  ultimately show False by arith
qed

lemma first_occurrence:
  assumes "old \<noteq> []" "sublist old s"
  shows "\<exists>a b. s = a @ old @ b \<and> \<not> sublist old (a @ butlast old)"
  using assms(2)
proof (induction s)
  case Nil
  with assms(1) show ?case by simp
next
  case (Cons c cs)
  show ?case
  proof (cases "prefix old (c # cs)")
    case True
    then obtain b where "c # cs = [] @ old @ b" by (auto simp: prefix_def)
    moreover have "\<not> sublist old ([] @ butlast old)"
      using no_sublist_butlast[OF assms(1)] by simp
    ultimately show ?thesis by blast
  next
    case False
    with Cons.prems have "sublist old cs" by (simp add: sublist_Cons_right)
    from Cons.IH[OF this] obtain a b where ab: "cs = a @ old @ b" "\<not> sublist old (a @ butlast old)"
      by blast
    have "\<not> sublist old ((c # a) @ butlast old)"
    proof
      assume "sublist old ((c # a) @ butlast old)"
      then have "prefix old (c # a @ butlast old)"
        using ab(2) by (simp add: sublist_Cons_right)
      moreover have "prefix (c # a @ butlast old) (c # cs)"
        using ab(1) assms(1) by (metis append_butlast_last_id append.assoc prefix_Cons prefixI)
      ultimately have "prefix old (c # cs)" by (rule prefix_order.trans)
      with False show False ..
    qed
    moreover have "c # cs = (c # a) @ old @ b" using ab(1) by simp
    ultimately show ?thesis by blast
  qed
qed

lemma py_replace_replaced_all:
  assumes "old \<noteq> []"
  shows "replaced_all old new s (py_replace old new s)"
proof (induction "length s" arbitrary: s rule: less_induct)
  case less
  show ?case
  proof (cases "sublist old s")
    case False
    then show ?thesis by (simp add: py_replace_absent replaced_all.none)
  next
    case True
    from first_occurrence[OF assms True] obtain a b
      where ab: "s = a @ old @ b" "\<not> sublist old (a @ butlast old)" by blast
    have "length b < length s" using ab(1) assms by simp
    from less[OF this] have "replaced_all old new b (py_replace old new b)" .
    from replaced_all.step[OF ab(2) this] show ?thesis
      by (simp add: ab(1) py_replace_first[OF assms ab(2)])
  qed
qed

lemma replaced_all_unique:
  assumes "old \<noteq> []" "replaced_all old new s t"
  shows "t = py_replace old new s"
  using assms(2,1)
  by (induction rule: replaced_all.induct) (simp_all add: py_replace_absent py_replace_first)

section \<open>Lines of a text\<close>

lemma concat_readlines: "concat (readlines s) = s"
  by (induction s) (auto split: list.splits)

lemma line_sublist: "l \<in> set (readlines s) \<Longrightarrow> sublist l s"
proof -
  assume "l \<in> set (readlines s)"
  then obtain xs ys where "readlines s = xs @ l # ys" by (auto simp: in_set_conv_decomp)
  then have "concat (readlines s) = concat xs @ l @ concat ys" by simp
  then show ?thesis unfolding concat_readlines by (metis sublist_appendI)
qed

lemma line_loop_iff: "line_loop r ls \<longleftrightarrow> (\<exists>l \<in> set ls. regex_search r l)"
  by (induction ls) auto

lemma whole_word_sublist: "whole_word name line \<Longrightarrow> sublist name line"
  unfolding whole_word_def sublist_def by (metis append_Cons append_Nil append.assoc)

lemma asset_name_nonempty: "path_name p \<noteq> [] \<Longrightarrow> asset_name p \<noteq> []"
  by (auto simp: asset_name_def path_stem_def Let_def split: option.splits)
lemma readlines_nonempty: "s \<noteq> [] \<Longrightarrow> readlines s \<noteq> []"
  by (cases s) (auto split: list.splits)

lemma first_line_prefix:
  "newline \<notin> set x \<Longrightarrow> \<exists>l ls. readlines (x @ a # post) = l # ls \<and> prefix (x @ [a]) l"
proof (induction x)
  case Nil
  show ?case by (auto split: list.splits)
next
  case (Cons c x)
  then obtain l ls where "readlines (x @ a # post) = l # ls" "prefix (x @ [a]) l" by auto
  moreover have "c \<noteq> newline" using Cons.prems by auto
  ultimately show ?case by simp
qed

lemma same_line:
  "newline \<notin> set x \<Longrightarrow> \<exists>l \<in> set (readlines (pre @ x @ a # post)). sublist (x @ [a]) l"
proof (induction pre)
  case Nil
  from first_line_prefix[OF Nil, of a post] show ?case
    by (auto intro: prefix_imp_sublist)
next
  case (Cons c pre)
  then obtain l where l: "l \<in> set (readlines (pre @ x @ a # post))" "sublist (x @ [a]) l" by auto
  show ?case
  proof (cases "c = newline")
    case True
    with l show ?thesis by auto
  next
    case False
    obtain k ks where ks: "readlines (pre @ x @ a # post) = k # ks"
      using l(1) by (cases "readlines (pre @ x @ a # post)") auto
    show ?thesis
    proof (cases "l = k")
      case True
      then have "sublist (x @ [a]) (c # k)" using l(2) by (simp add: sublist_Cons_right)
      then show ?thesis using False ks by auto
    next
      case False
      then have "l \<in> set ks" using l(1) ks by auto
      then show ?thesis using \<open>c \<noteq> newline\<close> ks l(2) by auto
    qed
  qed
qed

lemma whole_word_in_content:
  assumes "content = pre @ b # name @ a # post" "\<not> is_word b" "\<not> is_word a"
    "b \<noteq> newline" "newline \<notin> set name"
  shows "\<exists>l \<in> set (readlines content). whole_word name l"
proof -
  have "newline \<notin> set (b # name)" using assms(4,5) by auto
  from same_line[OF this, of pre a post] obtain l
    where l: "l \<in> set (readlines content)" "sublist ((b # name) @ [a]) l"
    using assms(1) by auto
  from l(2) obtain u v where "l = u @ b # name @ a # v" by (auto simp: sublist_def)
  then have "whole_word name l" using assms(2,3) unfolding whole_word_def by blast
  with l(1) show ?thesis by blast
qed

text \<open>
  Claim C2, as the code has it. When every occurrence of \<^verbatim>\<open>bar\<close> in the content is the
  end of an occurrence of \<^verbatim>\<open>foo_bar\<close>, the scan for \<^verbatim>\<open>bar\<close> reports no match; when the
  content holds \<^verbatim>\<open>foo_bar\<close> right after a non-word character that is no newline and right
  before a non-word character, the scan for \<^verbatim>\<open>foo_bar\<close> reports a match.
\<close>

theorem foo_bar_scan:
  "\<exists>bar foo_bar.
     compile (asset_pattern ''bar'') = Some bar \<and>
     compile (asset_pattern ''foo_bar'') = Some foo_bar \<and>
     ((\<forall>pre post. content = pre @ ''bar'' @ post \<longrightarrow> suffix ''foo_'' pre) \<longrightarrow>
        \<not> line_loop bar (readlines content)) \<and>
     ((\<exists>pre b a post. content = pre @ b # ''foo_bar'' @ a # post \<and>
          \<not> is_word b \<and> b \<noteq> newline \<and> \<not> is_word a) \<longrightarrow>
        line_loop foo_bar (readlines content))"
proof -
  have no_bar: "\<not> line_loop (NonWord # map Literal ''bar'' @ [NonWord]) (readlines content)"
    if inside: "\<forall>pre post. content = pre @ ''bar'' @ post \<longrightarrow> suffix ''foo_'' pre"
  proof
    assume "line_loop (NonWord # map Literal ''bar'' @ [NonWord]) (readlines content)"
    then obtain l where l: "l \<in> set (readlines content)" "whole_word ''bar'' l"
      unfolding line_loop_iff search_whole_word by blast
    from l(2) obtain p b a q where pq: "l = p @ b # ''bar'' @ a # q" "\<not> is_word b"
      unfolding whole_word_def by blast
    from line_sublist[OF l(1)] obtain u v where "content = u @ l @ v"
      by (auto simp: sublist_def)
    then have "content = (u @ p @ [b]) @ ''bar'' @ (a # q @ v)" using pq(1) by simp
    with inside have "suffix ''foo_'' (u @ p @ [b])" by blast
    then have "b = CHR ''_''" by (auto simp: suffix_def append_eq_append_conv2 Cons_eq_append_conv append_eq_Cons_conv)
    with pq(2) show False by (simp add: is_word_def)
  qed
  have foo: "line_loop (NonWord # map Literal ''foo_bar'' @ [NonWord]) (readlines content)"
    if "\<exists>pre b a post. content = pre @ b # ''foo_bar'' @ a # post \<and>
          \<not> is_word b \<and> b \<noteq> newline \<and> \<not> is_word a"
  proof -
    from that obtain pre b a post where c: "content = pre @ b # ''foo_bar'' @ a # post"
      "\<not> is_word b" "b \<noteq> newline" "\<not> is_word a" by blast
    have "newline \<notin> set ''foo_bar''" by (simp add: newline_def)
    from whole_word_in_content[OF c(1,2,4,3) this] show ?thesis
      unfolding line_loop_iff search_whole_word .
  qed
  show ?thesis using no_bar foo by (simp add: compile_asset_pattern del: map_append)
qed

theorem foo_bar_scan_witness:
  "(\<exists>pre b a post. ''(foo_bar)'' = pre @ b # ''foo_bar'' @ a # post \<and>
      \<not> is_word b \<and> b \<noteq> newline \<and> \<not> is_word a) \<and>
   \<not> line_loop (NonWord # map Literal ''bar'' @ [NonWord]) (readlines ''(foo_bar)'') \<and>
   line_loop (NonWord # map Literal ''foo_bar'' @ [NonWord]) (readlines ''(foo_bar)'')"
proof -
  have h1: "\<forall>pre post. ''(foo_bar)'' = pre @ ''bar'' @ post \<longrightarrow> suffix ''foo_'' pre"
    by (auto simp: Cons_eq_append_conv suffix_def)
  have h2: "\<exists>pre b a post. ''(foo_bar)'' = pre @ b # ''foo_bar'' @ a # post \<and>
      \<not> is_word b \<and> b \<noteq> newline \<and> \<not> is_word a"
    by (rule exI[of _ "[]"], rule exI[of _ "CHR ''(''"], rule exI[of _ "CHR '')''"],
        rule exI[of _ "[]"]) (simp add: is_word_def newline_def)
  from foo_bar_scan[of "''(foo_bar)''"] h1 h2 show ?thesis
    by (simp only: compile_asset_pattern option.inject simp_thms ex_simps)
qed

text \<open>
  Claim C2 as stated fails: the content \<^verbatim>\<open>foo_bar\<close> holds \<^verbatim>\<open>foo_bar\<close> and the scan for
  \<^verbatim>\<open>foo_bar\<close> reports nothing (no character before and after it); the content
  \<^verbatim>\<open>foo_bar, bar.\<close> holds \<^verbatim>\<open>foo_bar\<close> and the scan for \<^verbatim>\<open>bar\<close> reports a match.
\<close>

theorem foo_bar_counterexample:
  "sublist ''foo_bar'' ''foo_bar'' \<and>
   compile (asset_pattern ''foo_bar'') = Some (NonWord # map Literal ''foo_bar'' @ [NonWord]) \<and>
   \<not> line_loop (NonWord # map Literal ''foo_bar'' @ [NonWord]) (readlines ''foo_bar'') \<and>
   sublist ''foo_bar'' ''foo_bar, bar.'' \<and>
   compile (asset_pattern ''bar'') = Some (NonWord # map Literal ''bar'' @ [NonWord]) \<and>
   line_loop (NonWord # map Literal ''bar'' @ [NonWord]) (readlines ''foo_bar, bar.'')"
proof -
  have "sublist ''foo_bar'' ''foo_bar, bar.''"
    by (rule prefix_imp_sublist) simp
  then show ?thesis
    by (simp add: compile_asset_pattern is_word_def newline_def)
qed

section \<open>The rewrite\<close>

text \<open>
  Claim C4. The rewrite of an existing source file succeeds and leaves at the same path the
  text that the relation \<open>replaced_all\<close> determines from the original text: every
  occurrence of the old reference name, taken as a plain substring from the left, has become
  the new reference name. No other file changes and no path appears or disappears.
\<close>

theorem rewrite_replaces_every_occurrence:
  assumes "map_of (files st) source_file = Some content" and "path_name old_asset \<noteq> []"
  shows "\<exists>st' t. replace_asset_uses source_file old_asset new_asset st = Inr st' \<and>
           map_of (files st') source_file = Some t \<and>
           replaced_all (asset_name old_asset) (asset_name new_asset) content t \<and>
           (\<forall>t'. replaced_all (asset_name old_asset) (asset_name new_asset) content t' \<longrightarrow> t' = t) \<and>
           (\<forall>p. p \<noteq> source_file \<longrightarrow> map_of (files st') p = map_of (files st) p) \<and>
           map fst (files st') = map fst (files st) \<and>
           trace st' = trace st @ [Wrote source_file]"
proof -
  let ?old = "asset_name old_asset" and ?new = "asset_name new_asset"
  let ?t = "py_replace ?old ?new content"
  have ne: "?old \<noteq> []" using assms(2) by (rule asset_name_nonempty)
  have run: "replace_asset_uses source_file old_asset new_asset st = Inr (write_text source_file ?t st)"
    using assms(1) by (simp add: replace_asset_uses_def open_read_def)
  have key: "source_file \<in> set (map fst (files st))"
    using assms(1) by (metis map_of_eq_None_iff option.distinct(1) set_map)
  have "map_of (files (write_text source_file ?t st)) source_file = Some ?t"
    by (simp add: write_text_def update_conv')
  moreover have "replaced_all ?old ?new content ?t"
    using ne by (rule py_replace_replaced_all)
  moreover have "\<forall>t'. replaced_all ?old ?new content t' \<longrightarrow> t' = ?t"
    using ne replaced_all_unique by blast
  moreover have "\<forall>p. p \<noteq> source_file \<longrightarrow>
      map_of (files (write_text source_file ?t st)) p = map_of (files st) p"
    by (simp add: write_text_def update_conv')
  moreover have "map fst (files (write_text source_file ?t st)) = map fst (files st)"
    using key by (simp add: write_text_def update_keys)
  moreover have "trace (write_text source_file ?t st) = trace st @ [Wrote source_file]"
    by (simp add: write_text_def)
  ultimately show ?thesis using run by blast
qed

theorem rewrite_replaces_every_occurrence_witness:
  "map_of (files page) [''game'', ''index.html''] = Some ''src=(x.png) ax.pngb'' \<and>
   path_name [''game'', ''x.png''] \<noteq> [] \<and>
   (\<exists>st'. replace_asset_uses [''game'', ''index.html''] [''game'', ''x.png'']
             [''game'', ''x_a1B2c3D4.png''] page = Inr st' \<and>
          map_of (files st') [''game'', ''index.html''] =
            Some ''src=(x_a1B2c3D4.png) ax_a1B2c3D4.pngb'' \<and>
          map_of (files st') [''game'', ''x.png''] = Some ''PNG'')"
proof -
  have h1: "map_of (files page) [''game'', ''index.html''] = Some ''src=(x.png) ax.pngb''"
    by (simp add: page_def)
  have h2: "path_name [''game'', ''x.png''] \<noteq> []"
    by (simp add: path_name_def)
  have n1: "asset_name [''game'', ''x.png''] = ''x.png''"
    by (simp add: asset_name_def path_suffix_def path_name_def)
  have n2: "asset_name [''game'', ''x_a1B2c3D4.png''] = ''x_a1B2c3D4.png''"
    by (simp add: asset_name_def path_suffix_def path_name_def)
  have r: "py_replace ''x.png'' ''x_a1B2c3D4.png'' ''src=(x.png) ax.pngb'' =
      ''src=(x_a1B2c3D4.png) ax_a1B2c3D4.pngb''"
    by simp
  from rewrite_replaces_every_occurrence[OF h1 h2, of "[''game'', ''x_a1B2c3D4.png'']"]
  obtain st' t where st': 
    "replace_asset_uses [''game'', ''index.html''] [''game'', ''x.png'']
       [''game'', ''x_a1B2c3D4.png''] page = Inr st'"
    "map_of (files st') [''game'', ''index.html''] = Some t"
    "replaced_all ''x.png'' ''x_a1B2c3D4.png'' ''src=(x.png) ax.pngb'' t"
    "\<forall>p. p \<noteq> [''game'', ''index.html''] \<longrightarrow> map_of (files st') p = map_of (files page) p"
    unfolding n1 n2 by blast
  from replaced_all_unique[OF _ st'(3)] r have "t = ''src=(x_a1B2c3D4.png) ax_a1B2c3D4.pngb''"
    by simp
  moreover have "map_of (files st') [''game'', ''x.png''] = Some ''PNG''"
    using st'(4) by (simp add: page_def)
  ultimately show ?thesis using h1 h2 st'(1,2) by blast
qed

lemma only_in_other_case_iff: "only_in_other_case name content \<longleftrightarrow> \<not> sublist name content"
  by (auto simp: only_in_other_case_def same_ignoring_case_def)

text \<open>
  Claim C10. When a file's text holds the reference name only in another letter case, the
  scanner's rule matches none of its lines, and the rewrite writes the text back as it was.
\<close>

theorem case_sensitive:
  assumes "map_of (files st) source_file = Some content"
    and "only_in_other_case (asset_name asset) content"
  shows "\<exists>r. compile (asset_pattern (asset_name asset)) = Some r \<and>
           \<not> line_loop r (readlines content) \<and>
           replace_asset_uses source_file asset new_asset st =
             Inr (st\<lparr>trace := trace st @ [Wrote source_file]\<rparr>)"
proof -
  have absent: "\<not> sublist (asset_name asset) content"
    using assms(2) by (simp add: only_in_other_case_iff)
  have "\<not> line_loop (NonWord # map Literal (asset_name asset) @ [NonWord]) (readlines content)"
  proof
    assume "line_loop (NonWord # map Literal (asset_name asset) @ [NonWord]) (readlines content)"
    then obtain l where l: "l \<in> set (readlines content)" "whole_word (asset_name asset) l"
      unfolding line_loop_iff search_whole_word by blast
    from whole_word_sublist[OF l(2)] line_sublist[OF l(1)]
    have "sublist (asset_name asset) content" by (rule sublist_order.order.trans)
    with absent show False ..
  qed
  moreover have "replace_asset_uses source_file asset new_asset st =
      Inr (st\<lparr>trace := trace st @ [Wrote source_file]\<rparr>)"
    using assms(1) absent
    by (simp add: replace_asset_uses_def open_read_def write_text_def py_replace_absent update_triv)
  ultimately show ?thesis by (simp add: compile_asset_pattern)
qed

theorem case_sensitive_witness:
  "map_of (files (page\<lparr>files := [([''game'', ''index.html''], ''src=(X.PNG)'')]\<rparr>))
     [''game'', ''index.html''] = Some ''src=(X.PNG)'' \<and>
   sublist ''X.PNG'' ''src=(X.PNG)'' \<and> same_ignoring_case ''X.PNG'' ''x.png'' \<and>
   \<not> sublist (asset_name [''game'', ''x.png'']) ''src=(X.PNG)'' \<and>
   \<not> line_loop (NonWord # map Literal ''x.png'' @ [NonWord]) (readlines ''src=(X.PNG)'') \<and>
   replace_asset_uses [''game'', ''index.html''] [''game'', ''x.png'']
     [''game'', ''x_a1B2c3D4.png''] (page\<lparr>files := [([''game'', ''index.html''], ''src=(X.PNG)'')]\<rparr>) =
   Inr (page\<lparr>files := [([''game'', ''index.html''], ''src=(X.PNG)'')],
             trace := [Wrote [''game'', ''index.html'']]\<rparr>)"
proof -
  let ?st = "page\<lparr>files := [([''game'', ''index.html''], ''src=(X.PNG)'')]\<rparr>"
  have h1: "map_of (files ?st) [''game'', ''index.html''] = Some ''src=(X.PNG)''"
    by simp
  have n1: "asset_name [''game'', ''x.png''] = ''x.png''"
    by (simp add: asset_name_def path_suffix_def path_name_def)
  have h0: "\<not> sublist (asset_name [''game'', ''x.png'']) ''src=(X.PNG)''"
    unfolding n1 by code_simp
  then have h2: "only_in_other_case (asset_name [''game'', ''x.png'']) ''src=(X.PNG)''"
    by (simp add: only_in_other_case_iff)
  have v: "sublist ''X.PNG'' ''src=(X.PNG)''"
    by code_simp
  have c: "same_ignoring_case ''X.PNG'' ''x.png''"
    by (simp add: same_ignoring_case_def lower_def)
  from case_sensitive[OF h1 h2, of "[''game'', ''x_a1B2c3D4.png'']"] h1 h0 v c show ?thesis
    by (simp add: n1 compile_asset_pattern page_def)
qed

section \<open>The level of the logger\<close>

lemma recognized_nonempty: "map_of nameToLevel s = Some n \<Longrightarrow> s \<noteq> []"
  by (auto simp: nameToLevel_def)

lemma getLogger_env:
  "map_of env ''LOGGING_LEVEL'' = Some s \<Longrightarrow> s \<noteq> [] \<Longrightarrow>
   getLogger env caller None None =
     (case map_of nameToLevel s of
        None \<Rightarrow> Inl (ValueError (''Unknown level: '' @ [quote] @ s @ [quote]))
      | Some n \<Rightarrow> Inr \<lparr>logger_name = caller, logger_level = n\<rparr>)"
  by (simp add: getLogger_def default_level_def ColoredLogger_def checkLevel_def
      split: option.splits)

lemma getLogger_default:
  "map_of env ''LOGGING_LEVEL'' = None \<or> map_of env ''LOGGING_LEVEL'' = Some [] \<Longrightarrow>
   getLogger env caller None None = Inr \<lparr>logger_name = caller, logger_level = INFO\<rparr>"
  by (auto simp: getLogger_def default_level_def ColoredLogger_def checkLevel_def INFO_def)

text \<open>
  Claim C9, as the code has it. Building the logger turns a recognized level name of the
  variable into that level, and an unrecognized, non-empty value is a \<open>ValueError\<close>
  there, which also ends the start of the core. The core then sets the level of its logger
  to \<open>INFO\<close>: the lines it emits are those of severity \<open>INFO\<close> and above.
\<close>

theorem log_level_of_core:
  "(\<forall>s n. map_of env ''LOGGING_LEVEL'' = Some s \<and> map_of nameToLevel s = Some n \<longrightarrow>
      getLogger env caller None None = Inr \<lparr>logger_name = caller, logger_level = n\<rparr>) \<and>
   (\<forall>s. map_of env ''LOGGING_LEVEL'' = Some s \<and> s \<noteq> [] \<and> map_of nameToLevel s = None \<longrightarrow>
      getLogger env caller None None =
        Inl (ValueError (''Unknown level: '' @ [quote] @ s @ [quote])) \<and>
      core_logger env = Inl (ValueError (''Unknown level: '' @ [quote] @ s @ [quote]))) \<and>
   (\<forall>lg. core_logger env = Inr lg \<longrightarrow>
      logger_level lg = INFO \<and> (\<forall>severity. isEnabledFor lg severity \<longleftrightarrow> INFO \<le> severity))"
proof (intro conjI allI impI)
  fix s n assume "map_of env ''LOGGING_LEVEL'' = Some s \<and> map_of nameToLevel s = Some n"
  then show "getLogger env caller None None = Inr \<lparr>logger_name = caller, logger_level = n\<rparr>"
    using getLogger_env[of env s caller] recognized_nonempty[of s n] by simp
next
  fix s assume a: "map_of env ''LOGGING_LEVEL'' = Some s \<and> s \<noteq> [] \<and> map_of nameToLevel s = None"
  then show "getLogger env caller None None =
      Inl (ValueError (''Unknown level: '' @ [quote] @ s @ [quote]))"
    using getLogger_env[of env s caller] by simp
  from a show "core_logger env = Inl (ValueError (''Unknown level: '' @ [quote] @ s @ [quote]))"
    using getLogger_env[of env s "''__main__''"] by (simp add: core_logger_def)
next
  fix lg assume "core_logger env = Inr lg"
  then show "logger_level lg = INFO"
    by (auto simp: core_logger_def setLevel_def checkLevel_def split: sum.splits)
next
  fix lg severity assume "core_logger env = Inr lg"
  then have "logger_level lg = INFO"
    by (auto simp: core_logger_def setLevel_def checkLevel_def split: sum.splits)
  then show "isEnabledFor lg severity \<longleftrightarrow> INFO \<le> severity"
    by (simp add: isEnabledFor_def)
qed

theorem log_level_of_core_witness:
  "map_of [(''LOGGING_LEVEL'', ''ERROR'')] ''LOGGING_LEVEL'' = Some ''ERROR'' \<and>
   map_of nameToLevel ''ERROR'' = Some ERROR \<and>
   getLogger [(''LOGGING_LEVEL'', ''ERROR'')] ''__main__'' None None =
     Inr \<lparr>logger_name = ''__main__'', logger_level = ERROR\<rparr> \<and>
   core_logger [(''LOGGING_LEVEL'', ''ERROR'')] =
     Inr \<lparr>logger_name = ''__main__'', logger_level = INFO\<rparr> \<and>
   logger_level \<lparr>logger_name = ''__main__'', logger_level = INFO\<rparr> = INFO \<and>
   map_of [(''LOGGING_LEVEL'', ''verbose'')] ''LOGGING_LEVEL'' = Some ''verbose'' \<and>
   ''verbose'' \<noteq> [] \<and> map_of nameToLevel ''verbose'' = None \<and>
   core_logger [(''LOGGING_LEVEL'', ''verbose'')] =
     Inl (ValueError (''Unknown level: '' @ [quote] @ ''verbose'' @ [quote]))"
proof -
  have a: "map_of nameToLevel ''ERROR'' = Some ERROR"
    by (simp add: nameToLevel_def)
  have b: "map_of nameToLevel ''verbose'' = None"
    by (simp add: nameToLevel_def)
  have c: "core_logger [(''LOGGING_LEVEL'', ''ERROR'')] =
     Inr \<lparr>logger_name = ''__main__'', logger_level = INFO\<rparr>"
    by (simp add: core_logger_def getLogger_def default_level_def ColoredLogger_def
        checkLevel_def setLevel_def nameToLevel_def)
  show ?thesis
    using log_level_of_core[of "[(''LOGGING_LEVEL'', ''ERROR'')]" "''__main__''"]
      log_level_of_core[of "[(''LOGGING_LEVEL'', ''verbose'')]" "''__main__''"] a b c
    by simp
qed

text \<open>
  Claim C9 as stated fails: with \<^verbatim>\<open>LOGGING_LEVEL=DEBUG\<close> the logger of the core has the
  level \<open>INFO\<close> and emits no line of severity \<open>DEBUG\<close>.
\<close>

theorem log_level_debug_counterexample:
  "map_of nameToLevel ''DEBUG'' = Some DEBUG \<and>
   core_logger [(''LOGGING_LEVEL'', ''DEBUG'')] =
     Inr \<lparr>logger_name = ''__main__'', logger_level = INFO\<rparr> \<and>
   \<not> isEnabledFor \<lparr>logger_name = ''__main__'', logger_level = INFO\<rparr> DEBUG \<and>
   DEBUG < INFO"
  by (simp add: core_logger_def getLogger_def default_level_def ColoredLogger_def
      checkLevel_def setLevel_def nameToLevel_def isEnabledFor_def INFO_def DEBUG_def)

section \<open>Expanding twice\<close>

lemma keys_write_text:
  "fst ` set (files (write_text p c st)) = insert p (fst ` set (files st))"
  by (simp add: write_text_def dom_update)

lemma keys_extractall:
  "fst ` set (files (extractall target members st)) =
   fst ` set (files st) \<union> (\<lambda>(rel, c). target @ rel) ` set members"
proof (induction members arbitrary: st)
  case Nil
  show ?case by simp
next
  case (Cons m members)
  obtain rel c where m: "m = (rel, c)" by (cases m)
  have "fst ` set (files (extractall target (m # members) st)) =
      fst ` set (files (write_text (target @ rel) c st)) \<union>
      (\<lambda>(rel, c). target @ rel) ` set members"
    using Cons.IH by (simp add: m)
  also have "fst ` set (files (write_text (target @ rel) c st)) =
      insert (target @ rel) (fst ` set (files st))"
    by (rule keys_write_text)
  finally show ?case by (simp add: m)
qed

lemma trace_extractall:
  "trace (extractall target members st) =
   trace st @ map (\<lambda>(rel, c). Wrote (target @ rel)) members"
  by (induction members arbitrary: st) (auto simp: write_text_def)

lemma exists_after_extractall:
  assumes "members \<noteq> []"
  shows "exists (extractall target members st) target"
proof -
  from assms obtain rel c where m: "(rel, c) \<in> set members"
    by (cases members) auto
  then have k: "target @ rel \<in> fst ` set (files (extractall target members st))"
    unfolding keys_extractall by force
  show ?thesis
  proof (cases "rel = []")
    case True
    with k show ?thesis by (simp add: exists_def)
  next
    case False
    then have "strict_prefix target (target @ rel)" by (simp add: strict_prefix_def)
    with k show ?thesis unfolding exists_def by (metis image_set)
  qed
qed

text \<open>
  Claim C8, as the code has it. For an archive that is there and holds at least one member,
  the expansion succeeds and gives the sibling path named after the archive's stem; that
  path exists afterwards, and a second expansion gives the same path and leaves the state
  as it is, with no write. The members are written at most once.
\<close>

theorem expand_twice:
  assumes "map_of (files st) archive_path = Some content"
    and "unzip content = Some members" and "members \<noteq> []"
  shows "\<exists>st1. extract_zip unzip archive_path st =
             Inr (joinpath (path_parent archive_path) (path_stem archive_path), st1) \<and>
           exists st1 (joinpath (path_parent archive_path) (path_stem archive_path)) \<and>
           extract_zip unzip archive_path st1 =
             Inr (joinpath (path_parent archive_path) (path_stem archive_path), st1) \<and>
           (trace st1 = trace st \<or>
            trace st1 = trace st @
              map (\<lambda>(rel, c).
                  Wrote (joinpath (path_parent archive_path) (path_stem archive_path) @ rel))
                members)"
proof -
  let ?p = "joinpath (path_parent archive_path) (path_stem archive_path)"
  show ?thesis
  proof (cases "exists st ?p")
    case True
    then have "extract_zip unzip archive_path st = Inr (?p, st)"
      by (simp add: extract_zip_def Let_def)
    with True show ?thesis by simp
  next
    case False
    let ?st1 = "extractall ?p members st"
    have first: "extract_zip unzip archive_path st = Inr (?p, ?st1)"
      using False assms(1,2) by (simp add: extract_zip_def open_read_def Let_def)
    have ex: "exists ?st1 ?p" using assms(3) by (rule exists_after_extractall)
    then have "extract_zip unzip archive_path ?st1 = Inr (?p, ?st1)"
      by (simp add: extract_zip_def Let_def)
    with first ex show ?thesis by (simp add: trace_extractall)
  qed
qed


theorem expand_twice_witness:
  "map_of (files (download ''PK-game'')) [''game.zip''] = Some ''PK-game'' \<and>
   unzip_example ''PK-game'' = Some [([''index.html''], ''src=(x.png)''), ([''x.png''], ''PNG'')] \<and>
   [([''index.html''], ''src=(x.png)''), ([''x.png''], ''PNG'')] \<noteq> [] \<and>
   (\<exists>st1. extract_zip unzip_example [''game.zip''] (download ''PK-game'') = Inr ([''game''], st1) \<and>
      exists st1 [''game''] \<and>
      extract_zip unzip_example [''game.zip''] st1 = Inr ([''game''], st1))"
proof -
  have h1: "map_of (files (download ''PK-game'')) [''game.zip''] = Some ''PK-game''"
    by (simp add: download_def)
  have h2: "unzip_example ''PK-game'' =
      Some [([''index.html''], ''src=(x.png)''), ([''x.png''], ''PNG'')]"
    by (simp add: unzip_example_def)
  have p: "joinpath (path_parent [''game.zip'']) (path_stem [''game.zip'']) = [''game'']"
    by (simp add: joinpath_def path_parent_def path_stem_def path_name_def)
  from expand_twice[where unzip = unzip_example, OF h1 h2] h1 h2 show ?thesis
    unfolding p by blast
qed

text \<open>
  Claim C8 as stated fails for an archive without members: its expansion creates nothing, so
  the second expansion does not find the directory and opens the archive again.
\<close>

theorem expand_twice_empty_archive_counterexample:
  "unzip_example ''PK-empty'' = Some [] \<and>
   extract_zip unzip_example [''game.zip''] (download ''PK-empty'') =
     Inr ([''game''], download ''PK-empty'') \<and>
   \<not> exists (download ''PK-empty'') [''game'']"
  by (simp add: extract_zip_def unzip_example_def download_def joinpath_def path_parent_def
      path_stem_def path_name_def exists_def open_read_def Let_def)

section \<open>The scan for the uses of an asset\<close>

lemma line_loop_referenced:
  "line_loop (NonWord # map Literal name @ [NonWord]) (readlines content) \<longleftrightarrow>
   referenced_in name content"
  unfolding line_loop_iff search_whole_word referenced_in_def ..

lemma scan_loop_step:
  "scan_loop body asset (source_file # rest) found st =
     (case map_of (files st) source_file of
        None \<Rightarrow> Inl (FileNotFoundError (str_path source_file), st)
      | Some content \<Rightarrow>
          if referenced_in (asset_name asset) content then
            (case body source_file (st\<lparr>trace := trace st @ [Yielded source_file]\<rparr>) of
               Inl e \<Rightarrow> Inl e
             | Inr st' \<Rightarrow> scan_loop body asset rest True st')
          else scan_loop body asset rest found st)"
  by (simp add: compile_asset_pattern open_read_def line_loop_referenced split: option.splits)

lemma source_file_present:
  "src \<in> set (source_files st folder) \<Longrightarrow> \<exists>content. map_of (files st) src = Some content"
proof -
  assume "src \<in> set (source_files st folder)"
  then have "src \<in> set (map fst (files st))"
    by (auto simp: source_files_def rglob_def)
  then show ?thesis
    by (metis map_of_eq_None_iff not_Some_eq set_map)
qed

lemma scan_loop_nothing:
  assumes "\<forall>src \<in> set srcs. \<exists>content. map_of (files st) src = Some content \<and>
             \<not> referenced_in (asset_name asset) content"
  shows "scan_loop body asset srcs found st = Inr (found, st)"
  using assms
proof (induction srcs)
  case Nil
  show ?case by simp
next
  case (Cons src srcs)
  then obtain content where "map_of (files st) src = Some content"
    "\<not> referenced_in (asset_name asset) content" by auto
  then show ?case using Cons by (simp add: scan_loop_step del: scan_loop.simps)
qed

lemma asset_has_name:
  assumes "pattern \<in> set ASSETS_PATTERNS" "asset \<in> set (rglob st extract_path pattern)"
  shows "path_name asset \<noteq> []"
proof -
  from assms(2) have "pattern_matches pattern (path_name asset)" by (simp add: rglob_def)
  with assms(1) show ?thesis
    by (auto simp: ASSETS_PATTERNS_def pattern_matches_def)
qed

lemma rename_asset_named:
  "path_name asset \<noteq> [] \<Longrightarrow>
   \<exists>new_asset. rename_asset rnd asset st = Inr (new_asset, st\<lparr>drawn := drawn st + 8\<rparr>)"
  by (simp add: rename_asset_def generate_random_string_def choices_def with_stem_def)

lemma source_files_drawn [simp]:
  "source_files (st\<lparr>drawn := n\<rparr>) folder = source_files st folder"
  by (simp add: source_files_def rglob_def)

lemma join_last: "p \<noteq> [] \<Longrightarrow> \<exists>pre. join sep p = pre @ last p"
proof (induction sep p rule: join.induct)
  case (3 sep x y ys)
  then obtain pre where "join sep (y # ys) = pre @ last (y # ys)" by auto
  then have "join sep (x # y # ys) = (x @ sep @ pre) @ last (x # y # ys)" by simp
  then show ?case by blast
qed auto
text \<open>
  Claim C5. For an asset found under a pattern of the allow-list, when no source file
  below the extraction root holds its reference name as a whole word on a line, the scanner
  raises \<open>FileNotFoundError\<close> with the message that names the asset, whatever its consumer
  does; the processing of the asset, and with it the loop over the assets, stops with that
  error, and the files are as before: nothing is written and nothing renamed.
\<close>

theorem orphan_asset_not_renamed:
  assumes "pattern \<in> set ASSETS_PATTERNS" and "asset \<in> set (rglob st extract_path pattern)"
    and "\<forall>source_file \<in> set (source_files st extract_path). \<forall>content.
           map_of (files st) source_file = Some content \<longrightarrow>
           \<not> referenced_in (asset_name asset) content"
  shows "search_for_asset_uses body extract_path asset st =
           Inl (FileNotFoundError (asset_not_found asset), st) \<and>
         sublist (str_path asset) (asset_not_found asset) \<and>
         (\<exists>st'. process_asset rnd extract_path asset st =
                  Inl (FileNotFoundError (asset_not_found asset), st') \<and>
               assets_loop rnd extract_path (asset # assets) st =
                  Inl (FileNotFoundError (asset_not_found asset), st') \<and>
               files st' = files st \<and> trace st' = trace st)"
proof -
  have none: "\<forall>src \<in> set (source_files st extract_path).
      \<exists>content. map_of (files st') src = Some content \<and>
        \<not> referenced_in (asset_name asset) content" if "files st' = files st" for st' :: state
  proof
    fix src assume src: "src \<in> set (source_files st extract_path)"
    from source_file_present[OF this] obtain content where c: "map_of (files st) src = Some content"
      by blast
    with assms(3) src have "\<not> referenced_in (asset_name asset) content" by blast
    with c that show "\<exists>content. map_of (files st') src = Some content \<and>
        \<not> referenced_in (asset_name asset) content" by simp
  qed
  have scan: "scan_loop b asset (source_files st extract_path) False st' = Inr (False, st')"
    if "files st' = files st" for st' :: state and b
    using none[OF that] by (rule scan_loop_nothing)
  have search: "search_for_asset_uses b extract_path asset st' =
      Inl (FileNotFoundError (asset_not_found asset), st')"
    if "files st' = files st" for st' :: state and b
  proof -
    have "source_files st' extract_path = source_files st extract_path"
      using that by (simp add: source_files_def rglob_def)
    then show ?thesis using scan[OF that] by (simp add: search_for_asset_uses_def)
  qed
  have msg: "sublist (str_path asset) (asset_not_found asset)"
  proof -
    have "asset_not_found asset =
        (''The asset '' @ [quote]) @ str_path asset @
        ([quote] @ '' was not found in the source code.'')"
      by (simp add: asset_not_found_def)
    then show ?thesis by (simp only: sublist_appendI)
  qed
  from rename_asset_named[OF asset_has_name[OF assms(1,2)]] obtain new_asset
    where new: "rename_asset rnd asset st = Inr (new_asset, st\<lparr>drawn := drawn st + 8\<rparr>)"
    by blast
  have "process_asset rnd extract_path asset st =
      Inl (FileNotFoundError (asset_not_found asset), st\<lparr>drawn := drawn st + 8\<rparr>)"
    using new search[of "st\<lparr>drawn := drawn st + 8\<rparr>"] by (simp add: process_asset_def)
  then show ?thesis using search[of st body] msg by simp
qed

theorem orphan_asset_not_renamed_witness:
  "''*.png'' \<in> set ASSETS_PATTERNS \<and>
   [''game'', ''x.png''] \<in> set (rglob orphan [''game''] ''*.png'') \<and>
   source_files orphan [''game''] = [[''game'', ''index.html'']] \<and>
   map_of (files orphan) [''game'', ''index.html''] = Some ''src=(y.png)'' \<and>
   \<not> referenced_in (asset_name [''game'', ''x.png'']) ''src=(y.png)'' \<and>
   (\<exists>st'. process_asset id [''game''] [''game'', ''x.png''] orphan =
            Inl (FileNotFoundError (asset_not_found [''game'', ''x.png'']), st') \<and>
          map_of (files st') [''game'', ''x.png''] = Some ''PNG'' \<and> trace st' = [])"
proof -
  have h1: "''*.png'' \<in> set ASSETS_PATTERNS"
    by (simp add: ASSETS_PATTERNS_def)
  have h2: "[''game'', ''x.png''] \<in> set (rglob orphan [''game''] ''*.png'')"
    by (simp add: rglob_def orphan_def pattern_matches_def path_name_def suffix_def)
  have srcs: "source_files orphan [''game''] = [[''game'', ''index.html'']]"
    by (simp add: source_files_def rglob_def orphan_def pattern_matches_def path_name_def
        suffix_def)
  have n: "asset_name [''game'', ''x.png''] = ''x.png''"
    by (simp add: asset_name_def path_suffix_def path_name_def)
  have no: "\<not> referenced_in ''x.png'' ''src=(y.png)''"
    by (simp add: line_loop_referenced[symmetric] is_word_def newline_def)
  have h3: "\<forall>source_file \<in> set (source_files orphan [''game'']). \<forall>content.
      map_of (files orphan) source_file = Some content \<longrightarrow>
      \<not> referenced_in (asset_name [''game'', ''x.png'']) content"
  proof (intro ballI allI impI)
    fix source_file content
    assume a: "source_file \<in> set (source_files orphan [''game''])"
      "map_of (files orphan) source_file = Some content"
    from a(1) have "source_file = [''game'', ''index.html'']" by (simp add: srcs)
    with a(2) have "content = ''src=(y.png)''" by (simp add: orphan_def)
    with no show "\<not> referenced_in (asset_name [''game'', ''x.png'']) content" by (simp add: n)
  qed
  from orphan_asset_not_renamed[OF h1 h2 h3, of _ id "[]"] obtain st'
    where st': "process_asset id [''game''] [''game'', ''x.png''] orphan =
        Inl (FileNotFoundError (asset_not_found [''game'', ''x.png'']), st')"
      "files st' = files orphan" "trace st' = trace orphan"
    by blast
  have "map_of (files st') [''game'', ''x.png''] = Some ''PNG''" "trace st' = []"
    using st'(2,3) by (simp_all add: orphan_def)
  moreover have "map_of (files orphan) [''game'', ''index.html''] = Some ''src=(y.png)''"
    by (simp add: orphan_def)
  moreover have "\<not> referenced_in (asset_name [''game'', ''x.png'']) ''src=(y.png)''"
    using no by (simp add: n)
  ultimately show ?thesis using st'(1) h1 h2 srcs by blast
qed

section \<open>The order of the rewrites and the rename\<close>

lemma replace_asset_uses_Inr:
  "replace_asset_uses src old new st = Inr st' \<Longrightarrow> trace st' = trace st @ [Wrote src]"
  by (auto simp: replace_asset_uses_def write_text_def split: sum.splits)

lemma replace_asset_uses_Inl:
  "replace_asset_uses src old new st = Inl (e, st') \<Longrightarrow> st' = st"
  by (auto simp: replace_asset_uses_def split: sum.splits)

lemma uses_name_cong:
  "map_of (files st') p = map_of (files st) p \<Longrightarrow> uses_name name st' p = uses_name name st p"
  by (simp add: uses_name_def)

lemma replace_asset_uses_other:
  "replace_asset_uses src old new st = Inr st' \<Longrightarrow> p \<noteq> src \<Longrightarrow>
   map_of (files st') p = map_of (files st) p"
  by (auto simp: replace_asset_uses_def write_text_def update_conv' split: sum.splits)

text \<open>
  The files that the loop yields are the source files that hold the name as a whole word
  when the loop starts; each yield is followed at once by the write of that file.
\<close>

lemma scan_loop_trace:
  "scan_loop (\<lambda>u. replace_asset_uses u asset new) asset srcs found st = Inr (found', st') \<Longrightarrow>
   \<exists>uses. subseq uses srcs \<and> found' = (found \<or> uses \<noteq> []) \<and>
     (\<forall>p. p \<in> set uses \<longleftrightarrow> p \<in> set srcs \<and> uses_name (asset_name asset) st p) \<and>
     trace st' = trace st @ concat (map (\<lambda>src. [Yielded src, Wrote src]) uses)"
proof (induction srcs arbitrary: found st)
  case Nil
  then show ?case by auto
next
  case (Cons src srcs)
  let ?name = "asset_name asset"
  from Cons.prems obtain content where c: "map_of (files st) src = Some content"
    by (auto simp: scan_loop_step simp del: scan_loop.simps split: option.splits)
  show ?case
  proof (cases "referenced_in ?name content")
    case False
    have nouse: "\<not> uses_name ?name st src" using c False by (simp add: uses_name_def)
    from Cons.prems c False
    have "scan_loop (\<lambda>u. replace_asset_uses u asset new) asset srcs found st = Inr (found', st')"
      by (simp add: scan_loop_step del: scan_loop.simps)
    from Cons.IH[OF this] obtain uses where u: "subseq uses srcs"
      and f: "found' = (found \<or> uses \<noteq> [])"
      and m: "\<forall>p. p \<in> set uses \<longleftrightarrow> p \<in> set srcs \<and> uses_name ?name st p"
      and t: "trace st' = trace st @ concat (map (\<lambda>src. [Yielded src, Wrote src]) uses)"
      by blast
    from u have "subseq uses (src # srcs)" by (rule list_emb_Cons)
    moreover have "\<forall>p. p \<in> set uses \<longleftrightarrow> p \<in> set (src # srcs) \<and> uses_name ?name st p"
    proof
      fix p
      from m have "p \<in> set uses \<longleftrightarrow> p \<in> set srcs \<and> uses_name ?name st p" by (rule spec)
      then show "p \<in> set uses \<longleftrightarrow> p \<in> set (src # srcs) \<and> uses_name ?name st p"
        using nouse by (cases "p = src") simp_all
    qed
    ultimately show ?thesis using f t by blast
  next
    case True
    have use: "uses_name ?name st src" using c True by (simp add: uses_name_def)
    let ?st = "st\<lparr>trace := trace st @ [Yielded src]\<rparr>"
    from Cons.prems c True obtain st2 where
      st2: "replace_asset_uses src asset new ?st = Inr st2"
      and rest: "scan_loop (\<lambda>u. replace_asset_uses u asset new) asset srcs True st2 =
        Inr (found', st')"
      by (auto simp: scan_loop_step simp del: scan_loop.simps split: sum.splits)
    from replace_asset_uses_Inr[OF st2] have t2: "trace st2 = trace st @ [Yielded src, Wrote src]"
      by simp
    have same: "uses_name ?name st2 p = uses_name ?name st p" if "p \<noteq> src" for p
    proof -
      from replace_asset_uses_other[OF st2 that]
      have "map_of (files st2) p = map_of (files st) p" by simp
      then show ?thesis by (rule uses_name_cong)
    qed
    from Cons.IH[OF rest] obtain uses where u: "subseq uses srcs"
      and f: "found' = (True \<or> uses \<noteq> [])"
      and m: "\<forall>p. p \<in> set uses \<longleftrightarrow> p \<in> set srcs \<and> uses_name ?name st2 p"
      and t: "trace st' = trace st2 @ concat (map (\<lambda>src. [Yielded src, Wrote src]) uses)"
      by blast
    have "subseq (src # uses) (src # srcs)" using u by simp
    moreover have "found' = (found \<or> src # uses \<noteq> [])" using f by simp
    moreover have "\<forall>p. p \<in> set (src # uses) \<longleftrightarrow>
        p \<in> set (src # srcs) \<and> uses_name ?name st p"
    proof
      fix p
      from m have at_p: "p \<in> set uses \<longleftrightarrow> p \<in> set srcs \<and> uses_name ?name st2 p"
        by (rule spec)
      show "p \<in> set (src # uses) \<longleftrightarrow> p \<in> set (src # srcs) \<and> uses_name ?name st p"
      proof (cases "p = src")
        case True
        then show ?thesis using use by simp
      next
        case False
        with at_p same[OF False] show ?thesis by simp
      qed
    qed
    moreover have "trace st' =
        trace st @ concat (map (\<lambda>src. [Yielded src, Wrote src]) (src # uses))"
      using t t2 by simp
    ultimately show ?thesis by blast
  qed
qed

lemma subseq_member: "subseq xs ys \<Longrightarrow> x \<in> set xs \<Longrightarrow> x \<in> set ys"
  by (induct rule: list_emb.induct) auto

lemma subseq_filter:
  "distinct ys \<Longrightarrow> subseq xs ys \<Longrightarrow> (\<forall>p. p \<in> set xs \<longleftrightarrow> p \<in> set ys \<and> P p) \<Longrightarrow>
   xs = filter P ys"
proof (induction ys arbitrary: xs)
  case Nil
  then show ?case by simp
next
  case (Cons y ys)
  have yn: "y \<notin> set ys" and d: "distinct ys" using Cons.prems(1) by simp_all
  have at: "p \<in> set xs \<longleftrightarrow> p \<in> set (y # ys) \<and> P p" for p
    using Cons.prems(3) by (rule spec)
  show ?case
  proof (cases "P y")
    case True
    with at[of y] have yin: "y \<in> set xs" by simp
    then obtain x xs' where xs: "xs = x # xs'" by (cases xs) auto
    have "x = y"
    proof (rule ccontr)
      assume "x \<noteq> y"
      with Cons.prems(2) xs have "subseq xs ys" by simp
      from subseq_member[OF this yin] yn show False by contradiction
    qed
    with Cons.prems(2) xs have s: "subseq xs' ys" by simp
    have "\<forall>p. p \<in> set xs' \<longleftrightarrow> p \<in> set ys \<and> P p"
    proof
      fix p
      show "p \<in> set xs' \<longleftrightarrow> p \<in> set ys \<and> P p"
      proof (cases "p = y")
        case True
        have "y \<notin> set xs'" using subseq_member[OF s] yn by blast
        with True yn show ?thesis by simp
      next
        case False
        with at[of p] xs \<open>x = y\<close> show ?thesis by simp
      qed
    qed
    from Cons.IH[OF d s this] xs \<open>x = y\<close> True show ?thesis by simp
  next
    case False
    with at[of y] have ynx: "y \<notin> set xs" by simp
    have s: "subseq xs ys"
    proof (cases xs)
      case Nil
      then show ?thesis by simp
    next
      case (Cons x xs')
      with ynx have "x \<noteq> y" by auto
      with Cons.prems(2) Cons show ?thesis by simp
    qed
    have "\<forall>p. p \<in> set xs \<longleftrightarrow> p \<in> set ys \<and> P p"
    proof
      fix p
      show "p \<in> set xs \<longleftrightarrow> p \<in> set ys \<and> P p"
        using at[of p] False by (cases "p = y") simp_all
    qed
    from Cons.IH[OF d s this] False show ?thesis by simp
  qed
qed

lemma scan_loop_trace_failed:
  "scan_loop (\<lambda>u. replace_asset_uses u asset new) asset srcs found st = Inl (e, st') \<Longrightarrow>
   \<exists>events. trace st' = trace st @ events \<and> (\<forall>a b. Renamed a b \<notin> set events)"
proof (induction srcs arbitrary: found st)
  case Nil
  then show ?case by simp
next
  case (Cons src srcs)
  show ?case
  proof (cases "map_of (files st) src")
    case None
    with Cons.prems have "st' = st" by (simp add: scan_loop_step del: scan_loop.simps)
    then show ?thesis by simp
  next
    case (Some content)
    show ?thesis
    proof (cases "referenced_in (asset_name asset) content")
      case False
      with Cons.prems Some have "scan_loop (\<lambda>u. replace_asset_uses u asset new) asset srcs found st =
        Inl (e, st')"
        by (simp add: scan_loop_step del: scan_loop.simps)
      from Cons.IH[OF this] show ?thesis .
    next
      case True
      let ?st = "st\<lparr>trace := trace st @ [Yielded src]\<rparr>"
      show ?thesis
      proof (cases "replace_asset_uses src asset new ?st")
        case (Inl err)
        with Cons.prems Some True have "replace_asset_uses src asset new ?st = Inl (e, st')"
          by (simp add: scan_loop_step del: scan_loop.simps)
        from replace_asset_uses_Inl[OF this] have "trace st' = trace st @ [Yielded src]" by simp
        then have "trace st' = trace st @ [Yielded src] \<and>
            (\<forall>a b. Renamed a b \<notin> set [Yielded src])" by simp
        then show ?thesis by (rule exI)
      next
        case (Inr st2)
        with Cons.prems Some True
        have rest: "scan_loop (\<lambda>u. replace_asset_uses u asset new) asset srcs True st2 =
            Inl (e, st')"
          by (simp add: scan_loop_step del: scan_loop.simps)
        from replace_asset_uses_Inr[OF Inr] have t2: "trace st2 = trace st @ [Yielded src, Wrote src]"
          by simp
        from Cons.IH[OF rest] obtain events where ev: "trace st' = trace st2 @ events"
          "\<forall>a b. Renamed a b \<notin> set events" by blast
        have "trace st' = trace st @ ([Yielded src, Wrote src] @ events)" using ev(1) t2 by simp
        moreover have "\<forall>a b. Renamed a b \<notin> set ([Yielded src, Wrote src] @ events)"
          using ev(2) by simp
        ultimately show ?thesis by blast
      qed
    qed
  qed
qed

lemma rename_asset_Inr:
  "rename_asset rnd asset st = Inr (new_asset, st1) \<Longrightarrow>
   st1 = st\<lparr>drawn := drawn st + 8\<rparr> \<and>
   new_asset = butlast asset @
     [path_stem asset @ ''_'' @ fst (generate_random_string rnd 8 st) @ path_suffix asset]"
  by (auto simp: rename_asset_def generate_random_string_def choices_def with_stem_def
      split: if_splits)

lemma rename_asset_Inl:
  "rename_asset rnd asset st = Inl (e, st1) \<Longrightarrow> st1 = st\<lparr>drawn := drawn st + 8\<rparr>"
  by (auto simp: rename_asset_def generate_random_string_def choices_def with_stem_def
      split: if_splits)

lemma rename_Inr:
  "rename old new st = Inr st' \<Longrightarrow> trace st' = trace st @ [Renamed old new]"
  by (auto simp: rename_def split: option.splits)

lemma rename_Inl: "rename old new st = Inl (e, st') \<Longrightarrow> st' = st"
  by (auto simp: rename_def split: option.splits)

lemma suffix_last: "suffix xs n \<Longrightarrow> xs \<noteq> [] \<Longrightarrow> last n = last xs"
  by (auto simp: suffix_def)

lemma source_files_distinct:
  assumes "distinct (map fst (files st))"
  shows "distinct (source_files st folder)"
proof -
  have l: "last (path_name p) = CHR ''l''" if "p \<in> set (rglob st folder ''*.html'')" for p
    using that suffix_last[of "''.html''" "path_name p"] by (simp add: rglob_def pattern_matches_def)
  have s: "last (path_name p) = CHR ''s''" if "p \<in> set (rglob st folder ''*.js'')" for p
    using that suffix_last[of "''.js''" "path_name p"] by (simp add: rglob_def pattern_matches_def)
  have n: "last (path_name p) = CHR ''n''" if "p \<in> set (rglob st folder ''*.json'')" for p
    using that suffix_last[of "''.json''" "path_name p"] by (simp add: rglob_def pattern_matches_def)
  have d: "distinct (rglob st folder pattern)" for pattern
    using assms by (simp add: rglob_def)
  show ?thesis
    unfolding source_files_def using l s n d by (fastforce simp: distinct_append)
qed

text \<open>
  Claim C6. When the processing of an asset succeeds, the events it adds are, for each
  source file the scanner yields, the yield and right after it the write of that file, and
  then, last, the rename of the asset. The files yielded, in the order of the scan, are the
  source files below the extraction root that hold the reference name as a whole word on a
  line (at least one), each once when the state has one entry per path: every referencing
  source file is written before the rename. When the processing fails, the events it adds
  hold no rename.
\<close>

theorem rewrites_before_rename:
  "(process_asset rnd extract_path asset st = Inr st' \<longrightarrow>
      (\<exists>new_asset uses. uses \<noteq> [] \<and> subseq uses (source_files st extract_path) \<and>
         (\<forall>source_file. source_file \<in> set uses \<longleftrightarrow>
            source_file \<in> set (source_files st extract_path) \<and>
            uses_name (asset_name asset) st source_file) \<and>
         (distinct (map fst (files st)) \<longrightarrow>
            uses = filter (uses_name (asset_name asset) st) (source_files st extract_path)) \<and>
         trace st' = trace st @ concat (map (\<lambda>source_file. [Yielded source_file, Wrote source_file]) uses) @
           [Renamed asset new_asset])) \<and>
   (process_asset rnd extract_path asset st = Inl (e, st') \<longrightarrow>
      (\<exists>events. trace st' = trace st @ events \<and> (\<forall>old new. Renamed old new \<notin> set events)))"
proof (intro conjI impI)
  assume ok: "process_asset rnd extract_path asset st = Inr st'"
  then obtain new_asset st1 where r: "rename_asset rnd asset st = Inr (new_asset, st1)"
    by (auto simp: process_asset_def split: sum.splits)
  from rename_asset_Inr[OF r] have st1: "st1 = st\<lparr>drawn := drawn st + 8\<rparr>" by simp
  from ok r obtain st2 where
    s: "search_for_asset_uses (\<lambda>asset_use. replace_asset_uses asset_use asset new_asset)
          extract_path asset st1 = Inr st2"
    and m: "rename asset new_asset st2 = Inr st'"
    by (auto simp: process_asset_def split: sum.splits)
  from s have l: "scan_loop (\<lambda>asset_use. replace_asset_uses asset_use asset new_asset) asset
      (source_files st extract_path) False st1 = Inr (True, st2)"
    by (auto simp: search_for_asset_uses_def st1 split: sum.splits if_splits)
  from scan_loop_trace[OF l] obtain uses where u: "subseq uses (source_files st extract_path)"
    "uses \<noteq> []"
    "\<forall>p. p \<in> set uses \<longleftrightarrow>
       p \<in> set (source_files st extract_path) \<and> uses_name (asset_name asset) st1 p"
    "trace st2 = trace st1 @ concat (map (\<lambda>src. [Yielded src, Wrote src]) uses)"
    by auto
  have same: "uses_name (asset_name asset) st1 p = uses_name (asset_name asset) st p" for p
    by (simp add: st1 uses_name_def)
  have members: "\<forall>source_file. source_file \<in> set uses \<longleftrightarrow>
      source_file \<in> set (source_files st extract_path) \<and>
      uses_name (asset_name asset) st source_file"
    using u(3) unfolding same .
  have exact: "distinct (map fst (files st)) \<longrightarrow>
      uses = filter (uses_name (asset_name asset) st) (source_files st extract_path)"
  proof
    assume "distinct (map fst (files st))"
    then have "distinct (source_files st extract_path)" by (rule source_files_distinct)
    from subseq_filter[OF this u(1) members] show
      "uses = filter (uses_name (asset_name asset) st) (source_files st extract_path)" .
  qed
  from rename_Inr[OF m] u(4) st1
  have "trace st' = trace st @ concat (map (\<lambda>src. [Yielded src, Wrote src]) uses) @
      [Renamed asset new_asset]" by simp
  with u(1,2) members exact show "\<exists>new_asset uses. uses \<noteq> [] \<and>
      subseq uses (source_files st extract_path) \<and>
      (\<forall>source_file. source_file \<in> set uses \<longleftrightarrow>
         source_file \<in> set (source_files st extract_path) \<and>
         uses_name (asset_name asset) st source_file) \<and>
      (distinct (map fst (files st)) \<longrightarrow>
         uses = filter (uses_name (asset_name asset) st) (source_files st extract_path)) \<and>
      trace st' = trace st @ concat (map (\<lambda>source_file. [Yielded source_file, Wrote source_file]) uses) @
        [Renamed asset new_asset]" by blast
next
  assume bad: "process_asset rnd extract_path asset st = Inl (e, st')"
  show "\<exists>events. trace st' = trace st @ events \<and> (\<forall>old new. Renamed old new \<notin> set events)"
  proof (cases "rename_asset rnd asset st")
    case (Inl x)
    with bad have "rename_asset rnd asset st = Inl (e, st')" by (simp add: process_asset_def)
    from rename_asset_Inl[OF this] show ?thesis by simp
  next
    case (Inr y)
    obtain new_asset st1 where y: "y = (new_asset, st1)" by (cases y)
    from rename_asset_Inr[OF Inr[unfolded y]] have st1: "st1 = st\<lparr>drawn := drawn st + 8\<rparr>"
      by simp
    let ?body = "\<lambda>asset_use. replace_asset_uses asset_use asset new_asset"
    show ?thesis
    proof (cases "scan_loop ?body asset (source_files st extract_path) False st1")
      case (Inl x)
      with bad Inr y have "scan_loop ?body asset (source_files st extract_path) False st1 =
          Inl (e, st')"
        by (simp add: process_asset_def search_for_asset_uses_def st1)
      from scan_loop_trace_failed[OF this] show ?thesis by (simp add: st1)
    next
      case (Inr z)
      obtain found st2 where z: "z = (found, st2)" by (cases z)
      from scan_loop_trace[OF Inr[unfolded z]] obtain uses where
        u: "trace st2 = trace st1 @ concat (map (\<lambda>src. [Yielded src, Wrote src]) uses)"
        by blast
      have no: "\<forall>a b. Renamed a b \<notin> set (concat (map (\<lambda>src. [Yielded src, Wrote src]) uses))"
        by auto
      have "st' = st2"
      proof (cases found)
        case False
        with bad \<open>rename_asset rnd asset st = Inr y\<close> y Inr z show ?thesis
          by (simp add: process_asset_def search_for_asset_uses_def st1)
      next
        case True
        with bad \<open>rename_asset rnd asset st = Inr y\<close> y Inr z
        have "rename asset new_asset st2 = Inl (e, st')"
          by (simp add: process_asset_def search_for_asset_uses_def st1)
        from rename_Inl[OF this] show ?thesis .
      qed
      with u have "trace st' =
          trace st @ concat (map (\<lambda>src. [Yielded src, Wrote src]) uses)"
        by (simp add: st1)
      with no show ?thesis by blast
    qed
  qed
qed

lemma page_run:
  "process_asset id [''game''] [''game'', ''x.png''] page =
   Inr \<lparr>files = [([''game'', ''index.html''], ''src=(x_abcdefgh.png) ax_abcdefgh.pngb''),
                 ([''game'', ''x_abcdefgh.png''], ''PNG'')],
        trace = [Yielded [''game'', ''index.html''], Wrote [''game'', ''index.html''],
                 Renamed [''game'', ''x.png''] [''game'', ''x_abcdefgh.png'']],
        drawn = 8\<rparr>"
  by code_simp

lemma orphan_run:
  "process_asset id [''game''] [''game'', ''x.png''] orphan =
   Inl (FileNotFoundError (asset_not_found [''game'', ''x.png'']), orphan\<lparr>drawn := 8\<rparr>)"
  by code_simp

theorem rewrites_before_rename_witness:
  "process_asset id [''game''] [''game'', ''x.png''] page =
     Inr \<lparr>files = [([''game'', ''index.html''], ''src=(x_abcdefgh.png) ax_abcdefgh.pngb''),
                   ([''game'', ''x_abcdefgh.png''], ''PNG'')],
          trace = [Yielded [''game'', ''index.html''], Wrote [''game'', ''index.html''],
                   Renamed [''game'', ''x.png''] [''game'', ''x_abcdefgh.png'']],
          drawn = 8\<rparr> \<and>
   distinct (map fst (files page)) \<and>
   (\<exists>new_asset uses. uses \<noteq> [] \<and> subseq uses (source_files page [''game'']) \<and>
      uses = filter (uses_name (asset_name [''game'', ''x.png'']) page) (source_files page [''game'']) \<and>
      [Yielded [''game'', ''index.html''], Wrote [''game'', ''index.html''],
       Renamed [''game'', ''x.png''] [''game'', ''x_abcdefgh.png'']] =
      trace page @ concat (map (\<lambda>source_file. [Yielded source_file, Wrote source_file]) uses) @
        [Renamed [''game'', ''x.png''] new_asset]) \<and>
   process_asset id [''game''] [''game'', ''x.png''] orphan =
     Inl (FileNotFoundError (asset_not_found [''game'', ''x.png'']), orphan\<lparr>drawn := 8\<rparr>) \<and>
   (\<exists>events. trace (orphan\<lparr>drawn := 8\<rparr>) = trace orphan @ events \<and>
      (\<forall>old new. Renamed old new \<notin> set events))"
proof -
  have d: "distinct (map fst (files page))"
    by (simp add: page_def)
  from rewrites_before_rename[of id "[''game'']" "[''game'', ''x.png'']" page
      "\<lparr>files = [([''game'', ''index.html''], ''src=(x_abcdefgh.png) ax_abcdefgh.pngb''),
                   ([''game'', ''x_abcdefgh.png''], ''PNG'')],
          trace = [Yielded [''game'', ''index.html''], Wrote [''game'', ''index.html''],
                   Renamed [''game'', ''x.png''] [''game'', ''x_abcdefgh.png'']],
          drawn = 8\<rparr>"] page_run d
  have first: "\<exists>new_asset uses. uses \<noteq> [] \<and> subseq uses (source_files page [''game'']) \<and>
      uses = filter (uses_name (asset_name [''game'', ''x.png'']) page) (source_files page [''game'']) \<and>
      [Yielded [''game'', ''index.html''], Wrote [''game'', ''index.html''],
       Renamed [''game'', ''x.png''] [''game'', ''x_abcdefgh.png'']] =
      trace page @ concat (map (\<lambda>source_file. [Yielded source_file, Wrote source_file]) uses) @
        [Renamed [''game'', ''x.png''] new_asset]"
    by simp
  from rewrites_before_rename[of id "[''game'']" "[''game'', ''x.png'']" orphan
      "orphan\<lparr>drawn := 8\<rparr>" "FileNotFoundError (asset_not_found [''game'', ''x.png''])"]
    orphan_run
  have second: "\<exists>events. trace (orphan\<lparr>drawn := 8\<rparr>) = trace orphan @ events \<and>
      (\<forall>old new. Renamed old new \<notin> set events)"
    by simp
  from first second page_run orphan_run d show ?thesis by (intro conjI)
qed

section \<open>Renaming an asset that a page refers to\<close>

lemma alphabet_chars:
  "c \<in> set (ascii_letters @ digits) \<Longrightarrow> is_word c \<and> c \<noteq> CHR ''.''"
  unfolding ascii_letters_def digits_def is_word_def by auto

lemma random_string:
  "length (fst (generate_random_string rnd n st)) = n \<and>
   set (fst (generate_random_string rnd n st)) \<subseteq> set (ascii_letters @ digits)"
proof -
  have len: "length ascii_letters + length digits = 62"
    by (simp add: ascii_letters_def digits_def)
  have "(ascii_letters @ digits) ! (k mod 62) \<in> set (ascii_letters @ digits)" for k
    by (rule nth_mem) (simp add: len)
  then show ?thesis
    by (auto simp: generate_random_string_def choices_def len)
qed

lemma prefix_py_replace_plain:
  assumes "old \<noteq> []" and "new \<noteq> []"
  shows "hd new \<notin> set u \<Longrightarrow> prefix u (py_replace old new s) \<Longrightarrow> prefix u s"
proof (induction u arbitrary: s)
  case Nil
  show ?case by simp
next
  case (Cons a u)
  show ?case
  proof (cases s)
    case Nil
    with Cons.prems(2) assms(1) show ?thesis by simp
  next
    case (Cons c cs)
    show ?thesis
    proof (cases "prefix old (c # cs)")
      case True
      then have "py_replace old new s = new @ py_replace old new (drop (length old) (c # cs))"
        using assms(1) Cons by simp
      with Cons.prems(2) assms(2) have "a = hd new"
        by (cases new) simp_all
      with Cons.prems(1) show ?thesis by simp
    next
      case False
      then have "py_replace old new s = c # py_replace old new cs"
        using assms(1) Cons by simp
      with Cons.prems(2) have "a = c" "prefix u (py_replace old new cs)" by simp_all
      moreover from Cons.prems(1) have "hd new \<notin> set u" by simp
      ultimately show ?thesis using Cons.IH Cons by simp
    qed
  qed
qed

lemma py_replace_hit:
  "old \<noteq> [] \<Longrightarrow> prefix old s \<Longrightarrow>
   py_replace old new s = new @ py_replace old new (drop (length old) s)"
  by (cases s) auto

lemma py_replace_miss:
  "old \<noteq> [] \<Longrightarrow> \<not> prefix old (c # cs) \<Longrightarrow>
   py_replace old new (c # cs) = c # py_replace old new cs"
  by simp

lemma py_replace_keeps_start:
  assumes old: "old = ''x.png''" and new: "hd new = CHR ''x''" "new \<noteq> []"
    and p: "prefix old (py_replace old new s)"
  shows "prefix old s"
proof (cases s)
  case Nil
  with p old show ?thesis by simp
next
  case (Cons c cs)
  have ne: "old \<noteq> []" using old by simp
  show ?thesis
  proof (cases "prefix old (c # cs)")
    case True
    with Cons show ?thesis by simp
  next
    case False
    define r where "r = py_replace old new cs"
    from py_replace_miss[OF ne False] p Cons
    have "prefix old (c # r)" by (simp add: r_def)
    then have "prefix ''x.png'' (c # r)" by (simp only: old)
    then have c: "c = CHR ''x''" and "prefix ''.png'' r" by simp_all
    then have q: "prefix ''.png'' (py_replace old new cs)" by (simp only: r_def)
    have "hd new \<notin> set ''.png''" using new(1) by simp
    from prefix_py_replace_plain[OF ne new(2) this q] have "prefix ''.png'' cs" .
    with c have "prefix old (c # cs)" unfolding old by simp
    with False show ?thesis ..
  qed
qed

text \<open>An occurrence of the old name in the result stands right after a word character.\<close>

lemma inside_new_name:
  assumes S: "\<forall>x \<in> set [a, b, c, d, e, f, g, h]. is_word x \<and> x \<noteq> CHR ''.''"
    and "''x_'' @ [a, b, c, d, e, f, g, h] @ ''.png'' = pre @ v" and "v \<noteq> []"
    and "prefix ''x.png'' (v @ r)"
  shows "pre \<noteq> [] \<and> is_word (last pre)"
  using assms by (auto simp: Cons_eq_append_conv)

lemma old_name_after_word:
  assumes old: "old = ''x.png''" and new: "new = ''x_'' @ [a, b, c, d, e, f, g, h] @ ''.png''"
    and S: "\<forall>x \<in> set [a, b, c, d, e, f, g, h]. is_word x \<and> x \<noteq> CHR ''.''"
  shows "py_replace old new s = pre @ old @ post \<Longrightarrow> pre \<noteq> [] \<and> is_word (last pre)"
proof (induction "length s" arbitrary: s pre post rule: less_induct)
  case less
  have ne: "old \<noteq> []" using old by simp
  have hd: "hd new = CHR ''x''" "new \<noteq> []" using new by simp_all
  show ?case
  proof (cases s)
    case Nil
    with less.prems ne show ?thesis by simp
  next
    case (Cons k ks)
    show ?thesis
    proof (cases "prefix old s")
      case True
      let ?r' = "py_replace old new (drop (length old) s)"
      have "length (drop (length old) s) < length s" using ne Cons by simp
      note IH = less.hyps[OF this]
      from py_replace_hit[OF ne True] less.prems have eq: "new @ ?r' = pre @ old @ post" by simp
      then obtain us where us: "new = pre @ us \<and> us @ ?r' = old @ post \<or>
          new @ us = pre \<and> ?r' = us @ old @ post"
        unfolding append_eq_append_conv2[of new ?r' pre "old @ post"] by blast
      have "(\<exists>v. new = pre @ v \<and> v @ ?r' = old @ post \<and> v \<noteq> []) \<or>
          (\<exists>u. pre = new @ u \<and> ?r' = u @ old @ post)"
      proof (cases "us = []")
        case True
        with us have "pre = new @ [] \<and> ?r' = [] @ old @ post" by auto
        then show ?thesis by blast
      next
        case False
        with us show ?thesis by blast
      qed
      then consider (inside) v where "new = pre @ v" "v @ ?r' = old @ post" "v \<noteq> []"
        | (after) u where "pre = new @ u" "?r' = u @ old @ post"
        by blast
      then show ?thesis
      proof cases
        case inside
        from inside(2) have "prefix ''x.png'' (v @ ?r')" unfolding old by simp
        with inside_new_name[OF S inside(1)[unfolded new] inside(3)] show ?thesis by blast
      next
        case after
        from IH[OF after(2)] after(1) show ?thesis by simp
      qed
    next
      case False
      have "length ks < length s" using Cons by simp
      note IH = less.hyps[OF this]
      from False Cons py_replace_miss[OF ne, of k ks new]
      have r: "py_replace old new s = k # py_replace old new ks" by simp
      show ?thesis
      proof (cases pre)
        case Nil
        with less.prems have "prefix old (py_replace old new s)" by simp
        from py_replace_keeps_start[OF old hd this] False show ?thesis by simp
      next
        case (Cons p pre')
        with less.prems r have "py_replace old new ks = pre' @ old @ post" by simp
        from IH[OF this] Cons show ?thesis by simp
      qed
    qed
  qed
qed

lemma source_files_keys: "set (source_files st folder) \<subseteq> fst ` set (files st)"
  by (auto simp: source_files_def rglob_def)

lemma html_in_source_files:
  assumes "map_of (files st) p = Some content" "strict_prefix folder p"
    "suffix ''.html'' (path_name p)"
  shows "p \<in> set (source_files st folder)"
proof -
  from assms(1) have "p \<in> set (map fst (files st))"
    by (metis map_of_eq_None_iff option.distinct(1) set_map)
  with assms(2,3) show ?thesis
    by (simp add: source_files_def rglob_def pattern_matches_def)
qed

lemma png_not_in_source_files:
  assumes "suffix ''.png'' (path_name p)"
  shows "p \<notin> set (source_files st folder)"
proof
  assume "p \<in> set (source_files st folder)"
  then have "suffix ''.html'' (path_name p) \<or> suffix ''.js'' (path_name p) \<or>
      suffix ''.json'' (path_name p)"
    by (auto simp: source_files_def rglob_def pattern_matches_def)
  then have "last (path_name p) \<in> {CHR ''l'', CHR ''s'', CHR ''n''}"
    using suffix_last[of "''.html''" "path_name p"] suffix_last[of "''.js''" "path_name p"]
      suffix_last[of "''.json''" "path_name p"] by auto
  moreover from assms have "last (path_name p) = CHR ''g''"
    using suffix_last[of "''.png''" "path_name p"] by simp
  ultimately show False by simp
qed

lemma scan_loop_hit:
  assumes "map_of (files st) src = Some c" "referenced_in (asset_name asset) c"
  shows "scan_loop (\<lambda>u. replace_asset_uses u asset new) asset (src # srcs) found st =
         scan_loop (\<lambda>u. replace_asset_uses u asset new) asset srcs True
           (write_text src (py_replace (asset_name asset) (asset_name new) c)
              (st\<lparr>trace := trace st @ [Yielded src]\<rparr>))"
  using assms
  by (simp add: scan_loop_step replace_asset_uses_def open_read_def del: scan_loop.simps)

lemma scan_loop_pass:
  assumes "map_of (files st) src = Some c" "\<not> referenced_in (asset_name asset) c"
  shows "scan_loop body asset (src # srcs) found st = scan_loop body asset srcs found st"
  using assms by (simp add: scan_loop_step del: scan_loop.simps)

lemma scan_loop_rewrites:
  assumes "distinct srcs" "set srcs \<subseteq> fst ` set (files st)"
  shows "\<exists>st'. scan_loop (\<lambda>u. replace_asset_uses u asset new) asset srcs found st =
           Inr (found \<or> (\<exists>src \<in> set srcs. uses_name (asset_name asset) st src), st') \<and>
         (\<forall>p. map_of (files st') p =
            (if p \<in> set srcs \<and> uses_name (asset_name asset) st p
             then map_option (py_replace (asset_name asset) (asset_name new)) (map_of (files st) p)
             else map_of (files st) p)) \<and>
         fst ` set (files st') = fst ` set (files st)"
  using assms
proof (induction srcs arbitrary: found st)
  case Nil
  show ?case by simp
next
  case (Cons src srcs)
  let ?name = "asset_name asset"
  let ?repl = "py_replace (asset_name asset) (asset_name new)"
  let ?loop = "scan_loop (\<lambda>u. replace_asset_uses u asset new) asset"
  from Cons.prems(2) have key: "src \<in> fst ` set (files st)" by simp
  then obtain c where c: "map_of (files st) src = Some c"
    by (metis map_of_eq_None_iff not_Some_eq)
  have notin: "src \<notin> set srcs" and dist: "distinct srcs" using Cons.prems(1) by simp_all
  show ?case
  proof (cases "referenced_in ?name c")
    case False
    have nouse: "\<not> uses_name ?name st src" using c False by (simp add: uses_name_def)
    have sub: "set srcs \<subseteq> fst ` set (files st)" using Cons.prems(2) by simp
    from Cons.IH[OF dist sub, of found] obtain st' where
      run: "?loop srcs found st = Inr (found \<or> (\<exists>src \<in> set srcs. uses_name ?name st src), st')"
      and maps: "\<forall>p. map_of (files st') p =
            (if p \<in> set srcs \<and> uses_name ?name st p
             then map_option ?repl (map_of (files st) p) else map_of (files st) p)"
      and keys: "fst ` set (files st') = fst ` set (files st)"
      by (elim exE conjE)
    have "?loop (src # srcs) found st =
        Inr (found \<or> (\<exists>s \<in> set (src # srcs). uses_name ?name st s), st')"
      using run nouse by (simp add: scan_loop_pass[OF c False] del: scan_loop.simps)
    moreover have "\<forall>p. map_of (files st') p =
            (if p \<in> set (src # srcs) \<and> uses_name ?name st p
             then map_option ?repl (map_of (files st) p) else map_of (files st) p)"
    proof
      fix p
      from maps have "map_of (files st') p =
            (if p \<in> set srcs \<and> uses_name ?name st p
             then map_option ?repl (map_of (files st) p) else map_of (files st) p)"
        by (rule spec)
      then show "map_of (files st') p =
            (if p \<in> set (src # srcs) \<and> uses_name ?name st p
             then map_option ?repl (map_of (files st) p) else map_of (files st) p)"
        using nouse by (cases "p = src") simp_all
    qed
    ultimately show ?thesis using keys by (intro exI[of _ st'] conjI)
  next
    case True
    have use: "uses_name ?name st src" using c True by (simp add: uses_name_def)
    let ?st2 = "write_text src (?repl c) (st\<lparr>trace := trace st @ [Yielded src]\<rparr>)"
    have m2: "map_of (files ?st2) = (map_of (files st))(src \<mapsto> ?repl c)"
      by (simp add: write_text_def update_conv')
    have k2: "fst ` set (files ?st2) = fst ` set (files st)"
      using key by (auto simp: write_text_def dom_update)
    have sub: "set srcs \<subseteq> fst ` set (files ?st2)" using Cons.prems(2) k2 by simp
    from Cons.IH[OF dist sub, of True] obtain st' where
      run: "?loop srcs True ?st2 = Inr (True \<or> (\<exists>src \<in> set srcs. uses_name ?name ?st2 src), st')"
      and maps: "\<forall>p. map_of (files st') p =
            (if p \<in> set srcs \<and> uses_name ?name ?st2 p
             then map_option ?repl (map_of (files ?st2) p) else map_of (files ?st2) p)"
      and keys: "fst ` set (files st') = fst ` set (files ?st2)"
      by (elim exE conjE)
    have "?loop (src # srcs) found st =
        Inr (found \<or> (\<exists>s \<in> set (src # srcs). uses_name ?name st s), st')"
      using run use by (simp add: scan_loop_hit[OF c True] del: scan_loop.simps)
    moreover have "\<forall>p. map_of (files st') p =
            (if p \<in> set (src # srcs) \<and> uses_name ?name st p
             then map_option ?repl (map_of (files st) p) else map_of (files st) p)"
    proof
      fix p
      from maps have at_p: "map_of (files st') p =
            (if p \<in> set srcs \<and> uses_name ?name ?st2 p
             then map_option ?repl (map_of (files ?st2) p) else map_of (files ?st2) p)"
        by (rule spec)
      show "map_of (files st') p =
            (if p \<in> set (src # srcs) \<and> uses_name ?name st p
             then map_option ?repl (map_of (files st) p) else map_of (files st) p)"
      proof (cases "p = src")
        case True
        with at_p notin have "map_of (files st') p = map_of (files ?st2) p" by simp
        also have "\<dots> = Some (?repl c)" using True by (simp add: m2)
        finally show ?thesis using True c use by simp
      next
        case False
        then have eq: "map_of (files ?st2) p = map_of (files st) p"
          by (simp add: m2)
        from uses_name_cong[OF eq] have u: "uses_name ?name ?st2 p = uses_name ?name st p" .
        from at_p show ?thesis unfolding eq u using False by simp
      qed
    qed
    ultimately show ?thesis using keys k2 by (intro exI[of _ st'] conjI) simp_all
  qed
qed

lemma eight_chars: "length S = 8 \<Longrightarrow> \<exists>a b c d e f g h. S = [a, b, c, d, e, f, g, h]"
  by (auto simp: eval_nat_numeral length_Suc_conv)

lemma whole_word_in_text:
  "whole_word name line \<Longrightarrow> sublist line content \<Longrightarrow> whole_word name content"
  unfolding whole_word_def sublist_def by (metis append.assoc append_Cons)

lemma no_whole_word_left:
  assumes "length S = 8" "set S \<subseteq> set (ascii_letters @ digits)"
  shows "\<not> whole_word ''x.png'' (py_replace ''x.png'' (''x_'' @ S @ ''.png'') content)"
proof
  assume "whole_word ''x.png'' (py_replace ''x.png'' (''x_'' @ S @ ''.png'') content)"
  then obtain pre b a post where
    d: "py_replace ''x.png'' (''x_'' @ S @ ''.png'') content = (pre @ [b]) @ ''x.png'' @ (a # post)"
    and b: "\<not> is_word b"
    unfolding whole_word_def by auto
  from eight_chars[OF assms(1)] obtain c1 c2 c3 c4 c5 c6 c7 c8
    where S: "S = [c1, c2, c3, c4, c5, c6, c7, c8]" by blast
  have "\<forall>x \<in> set [c1, c2, c3, c4, c5, c6, c7, c8]. is_word x \<and> x \<noteq> CHR ''.''"
    using assms(2) alphabet_chars unfolding S by blast
  from old_name_after_word[OF refl _ this d[unfolded S]]
  have "is_word (last (pre @ [b]))" by simp
  with b show False by simp
qed

lemma new_name_present:
  assumes "old \<noteq> []" "sublist old content"
  shows "sublist new (py_replace old new content)"
proof -
  from first_occurrence[OF assms] obtain a b where
    "content = a @ old @ b" "\<not> sublist old (a @ butlast old)" by blast
  then have "py_replace old new content = a @ new @ py_replace old new b"
    using py_replace_first[OF assms(1)] by simp
  then show ?thesis by (simp only: sublist_appendI)
qed

lemma referenced_sublist: "referenced_in name content \<Longrightarrow> sublist name content"
  unfolding referenced_in_def
  using whole_word_sublist line_sublist sublist_order.order.trans by blast

lemma name_of_file: "path_name (dir @ [n]) = n"
  by (simp add: path_name_def)

text \<open>
  Claim C7. In a state with one entry per path, let \<^verbatim>\<open>x.png\<close> be a file of some directory
  and \<^verbatim>\<open>a.html\<close> a file below the extraction root whose text holds \<^verbatim>\<open>x.png\<close> as a whole
  word on a line. Processing the asset succeeds; with the eight letters and digits drawn as
  suffix, the text of \<^verbatim>\<open>a.html\<close> then holds the new name, no occurrence of \<^verbatim>\<open>x.png\<close> in
  it stands between two non-word characters, the file \<^verbatim>\<open>x.png\<close> is gone, and the file with
  the new name is in the same directory, with the same extension and the same content.
\<close>

theorem rename_round_trip:
  assumes d0: "distinct (map fst (files st))"
    and img: "map_of (files st) (dir @ [''x.png'']) = Some picture"
    and below: "strict_prefix extract_path (sub @ [''a.html''])"
    and pg: "map_of (files st) (sub @ [''a.html'']) = Some content"
    and ref: "referenced_in ''x.png'' content"
  shows "\<exists>suffix st' content'.
           process_asset rnd extract_path (dir @ [''x.png'']) st = Inr st' \<and>
           length suffix = 8 \<and> set suffix \<subseteq> set (ascii_letters @ digits) \<and>
           map_of (files st') (sub @ [''a.html'']) = Some content' \<and>
           sublist (''x_'' @ suffix @ ''.png'') content' \<and>
           \<not> whole_word ''x.png'' content' \<and> \<not> referenced_in ''x.png'' content' \<and>
           map_of (files st') (dir @ [''x.png'']) = None \<and>
           map_of (files st') (dir @ [''x_'' @ suffix @ ''.png'']) = Some picture"
proof -
  let ?asset = "dir @ [''x.png'']" and ?page = "sub @ [''a.html'']"
  define S where "S = fst (generate_random_string rnd 8 st)"
  let ?new = "dir @ [''x_'' @ S @ ''.png'']"
  let ?st1 = "st\<lparr>drawn := drawn st + 8\<rparr>"
  have S: "length S = 8" "set S \<subseteq> set (ascii_letters @ digits)"
    using random_string[of rnd 8 st] by (simp_all add: S_def)
  have nodot: "CHR ''.'' \<notin> set S" using S(2) alphabet_chars by blast
  \<comment> \<open>the names\<close>
  have an: "path_name ?asset = ''x'' @ CHR ''.'' # ''png''" by (simp add: name_of_file)
  have stem: "path_stem ?asset = ''x''" and suf: "path_suffix ?asset = ''.png''"
    using suffix_of_name[OF _ _ an] by simp_all
  have old_name: "asset_name ?asset = ''x.png''"
    using suf by (simp add: asset_name_def name_of_file)
  have nn: "path_name ?new = (''x_'' @ S) @ CHR ''.'' # ''png''" by (simp add: name_of_file)
  have "path_suffix ?new = ''.png''"
    using suffix_of_name(1)[OF _ _ nn] by simp
  then have new_name: "asset_name ?new = ''x_'' @ S @ ''.png''"
    by (simp add: asset_name_def name_of_file)
  \<comment> \<open>the new path\<close>
  have "snd (generate_random_string rnd 8 st) = ?st1"
    by (simp add: generate_random_string_def choices_def)
  then have draw: "rename_asset rnd ?asset st = Inr (?new, ?st1)"
    by (simp add: rename_asset_def S_def[symmetric] split_beta with_stem_def name_of_file stem suf)
  \<comment> \<open>the scan and the rewrites\<close>
  let ?srcs = "source_files st extract_path"
  have srcs1: "source_files ?st1 extract_path = ?srcs" by simp
  have d: "distinct ?srcs" using d0 by (rule source_files_distinct)
  have k: "set ?srcs \<subseteq> fst ` set (files ?st1)" using source_files_keys[of st] by simp
  have page_in: "?page \<in> set ?srcs"
    using html_in_source_files[OF pg below] by (simp add: name_of_file suffix_def)
  have asset_out: "?asset \<notin> set ?srcs"
    by (rule png_not_in_source_files) (simp add: name_of_file suffix_def)
  have page_uses: "uses_name ''x.png'' ?st1 ?page"
    using pg ref by (simp add: uses_name_def)
  from scan_loop_rewrites[OF d k, of ?asset ?new False] obtain st2 where
    run: "scan_loop (\<lambda>u. replace_asset_uses u ?asset ?new) ?asset ?srcs False ?st1 =
        Inr (False \<or> (\<exists>src \<in> set ?srcs. uses_name (asset_name ?asset) ?st1 src), st2)"
    and maps: "\<forall>p. map_of (files st2) p =
        (if p \<in> set ?srcs \<and> uses_name (asset_name ?asset) ?st1 p
         then map_option (py_replace (asset_name ?asset) (asset_name ?new)) (map_of (files ?st1) p)
         else map_of (files ?st1) p)"
    by (elim exE conjE)
  have found: "\<exists>src \<in> set ?srcs. uses_name (asset_name ?asset) ?st1 src"
    using page_in page_uses old_name by auto
  have search: "search_for_asset_uses (\<lambda>u. replace_asset_uses u ?asset ?new) extract_path
      ?asset ?st1 = Inr st2"
    using run found by (simp add: search_for_asset_uses_def srcs1)
  let ?content' = "py_replace ''x.png'' (''x_'' @ S @ ''.png'') content"
  have page2: "map_of (files st2) ?page = Some ?content'"
    using spec[OF maps, of ?page] page_in page_uses pg by (simp add: old_name new_name[simplified])
  have asset2: "map_of (files st2) ?asset = Some picture"
    using spec[OF maps, of ?asset] asset_out img by simp
  \<comment> \<open>the rename\<close>
  let ?st3 = "st2\<lparr>files := AList.update ?new picture (AList.delete ?asset (files st2)),
                  trace := trace st2 @ [Renamed ?asset ?new]\<rparr>"
  have ren: "rename ?asset ?new st2 = Inr ?st3"
    using asset2 by (simp add: rename_def)
  have whole: "process_asset rnd extract_path ?asset st = Inr ?st3"
    using draw search ren by (simp add: process_asset_def)
  have ne1: "?asset \<noteq> ?new" by simp
  have ne2: "?page \<noteq> ?new" "?page \<noteq> ?asset" by simp_all
  have gone: "map_of (files ?st3) ?asset = None"
    using ne1 by (simp add: update_conv' delete_conv')
  have there: "map_of (files ?st3) ?new = Some picture"
    by (simp add: update_conv' delete_conv')
  have page3: "map_of (files ?st3) ?page = Some ?content'"
    using ne2 page2 by (simp add: update_conv' delete_conv')
  \<comment> \<open>the text of the page\<close>
  have "sublist ''x.png'' content" using ref by (rule referenced_sublist)
  then have has_new: "sublist (''x_'' @ S @ ''.png'') ?content'"
    by (rule new_name_present[rotated]) simp
  have no_word: "\<not> whole_word ''x.png'' ?content'"
    using S by (rule no_whole_word_left)
  have no_ref: "\<not> referenced_in ''x.png'' ?content'"
    using no_word whole_word_in_text line_sublist unfolding referenced_in_def by blast
  from whole S page3 has_new no_word no_ref gone there show ?thesis by blast
qed

theorem rename_round_trip_witness:
  "distinct (map fst (files site)) \<and>
   map_of (files site) ([''game''] @ [''x.png'']) = Some ''PNG'' \<and>
   strict_prefix [''game''] ([''game''] @ [''a.html'']) \<and>
   map_of (files site) ([''game''] @ [''a.html'']) = Some ''src=(x.png)'' \<and>
   referenced_in ''x.png'' ''src=(x.png)'' \<and>
   (\<exists>suffix st' content'.
      process_asset id [''game''] ([''game''] @ [''x.png'']) site = Inr st' \<and>
      length suffix = 8 \<and> set suffix \<subseteq> set (ascii_letters @ digits) \<and>
      map_of (files st') ([''game''] @ [''a.html'']) = Some content' \<and>
      sublist (''x_'' @ suffix @ ''.png'') content' \<and>
      \<not> whole_word ''x.png'' content' \<and> \<not> referenced_in ''x.png'' content' \<and>
      map_of (files st') ([''game''] @ [''x.png'']) = None \<and>
      map_of (files st') ([''game''] @ [''x_'' @ suffix @ ''.png'']) = Some ''PNG'')"
proof -
  have h1: "distinct (map fst (files site))"
    by (simp add: site_def)
  have h2: "map_of (files site) ([''game''] @ [''x.png'']) = Some ''PNG''"
    by (simp add: site_def)
  have h3: "strict_prefix [''game''] ([''game''] @ [''a.html''])"
    by (simp add: strict_prefix_def)
  have h4: "map_of (files site) ([''game''] @ [''a.html'']) = Some ''src=(x.png)''"
    by (simp add: site_def)
  have h5: "referenced_in ''x.png'' ''src=(x.png)''"
    by (simp add: line_loop_referenced[symmetric] is_word_def newline_def)
  from rename_round_trip[OF h1 h2 h3 h4 h5, of id] h1 h2 h3 h4 h5 show ?thesis
    by (intro conjI)
qed

lemma site_run:
  "process_asset id [''game''] [''game'', ''x.png''] site =
   Inr \<lparr>files = [([''game'', ''a.html''], ''src=(x_abcdefgh.png)''),
                 ([''game'', ''x_abcdefgh.png''], ''PNG'')],
        trace = [Yielded [''game'', ''a.html''], Wrote [''game'', ''a.html''],
                 Renamed [''game'', ''x.png''] [''game'', ''x_abcdefgh.png'']],
        drawn = 8\<rparr>"
  by code_simp

end
